theory Spec2Isabelle
  imports Main "HOL-Library.Word" "HOL-Library.AList"
begin

section \<open>A shallow embedding of the Bitcask key/value store\<close>

text \<open>
  The development follows \<^verbatim>\<open>bitcask.h\<close> and \<^verbatim>\<open>bitcask.cc\<close>. The conventions:
  \<^item> \<^verbatim>\<open>std::string\<close> and file contents are \<open>string\<close> (a list of 8-bit \<open>char\<close>s);
  \<^item> \<^verbatim>\<open>int64_t\<close> and \<^verbatim>\<open>size_t\<close> are \<open>64 word\<close> (an LP64 platform, where a pointer, a
    \<^verbatim>\<open>size_t\<close> and an \<^verbatim>\<open>int64_t\<close> all take 8 bytes); timestamps are compared through
    \<open>sint\<close>, sizes are read through \<open>unat\<close>; integers lie in memory little-endian;
  \<^item> \<^verbatim>\<open>std::unordered_map\<close> is an association list with distinct keys: \<open>map_of\<close> is
    \<^verbatim>\<open>find\<close>, \<open>AList.update\<close> is \<^verbatim>\<open>operator[]\<close> assignment, \<open>AList.delete\<close> is
    \<^verbatim>\<open>erase\<close>; the order of the list stands for the unspecified iteration order;
  \<^item> the cask directory is an association list from file name to contents, in the
    order \<^verbatim>\<open>fs::directory_iterator\<close> yields the files; a path is represented by the
    file name inside that directory;
  \<^item> \<^verbatim>\<open>NowToMicros()\<close> reads the system clock: the value it returns is an argument
    of \<open>Open\<close>, \<open>Put\<close> and \<open>Delete\<close>;
  \<^item> stream positions are \<open>nat\<close> (files stay far below \<open>2^63\<close> bytes, so the
    \<^verbatim>\<open>streamoff\<close> additions do not overflow); opening and writing files succeeds;
  \<^item> the memory the process has is a parameter, \<open>limits\<close>: \<open>string_max\<close> is the
    largest size a \<^verbatim>\<open>std::string\<close> can be given (beyond it \<^verbatim>\<open>resize\<close> and the
    constructors throw \<^verbatim>\<open>std::length_error\<close> or \<^verbatim>\<open>std::bad_alloc\<close>), \<open>stack_max\<close> is
    the largest array the stack frame of \<^verbatim>\<open>Get\<close> can take. The strings passed to
    \<^verbatim>\<open>Put\<close> and \<^verbatim>\<open>Delete\<close> exist, so copying them succeeds.
\<close>

subsection \<open>Raw memory images of 8-byte integers\<close>

text \<open>\<open>le_bytes n x\<close>: the \<open>n\<close> low bytes of \<open>x\<close>, least significant first.\<close>

fun le_bytes :: "nat \<Rightarrow> nat \<Rightarrow> string" where
  "le_bytes 0 x = []"
| "le_bytes (Suc n) x = char_of (x mod 256) # le_bytes n (x div 256)"

fun le_nat :: "string \<Rightarrow> nat" where
  "le_nat [] = 0"
| "le_nat (c # cs) = of_char c + 256 * le_nat cs"

text \<open>The 8 bytes an \<^verbatim>\<open>int64_t\<close> or \<^verbatim>\<open>size_t\<close> object occupies, and the object 8 bytes denote.\<close>

definition word_bytes :: "64 word \<Rightarrow> string" where
  "word_bytes w = le_bytes 8 (unat w)"

definition bytes_word :: "string \<Rightarrow> 64 word" where
  "bytes_word bs = of_nat (le_nat bs)"

subsection \<open>Constants and data (\<^verbatim>\<open>bitcask.h\<close>)\<close>

definition kTombstoneValue :: string where
  "kTombstoneValue = ''rdbc_tombstone''"

definition kCaskSuffix :: string where
  "kCaskSuffix = ''.cask''"

record KeyDirEntry =
  file_id :: string
  value_sz :: "64 word"
  value_pos :: nat
  timestamp :: "64 word"

record CaskEntry =
  timestamp :: "64 word"
  key_sz :: "64 word"
  value_sz :: "64 word"
  key :: string
  "value" :: string

type_synonym KeyDirMap = "(string \<times> KeyDirEntry) list"

text \<open>
  The ways a call ends without a result. \<^verbatim>\<open>MissingKeyException\<close> is the exception of
  \<^verbatim>\<open>Get\<close>. \<open>AllocationFailure\<close> stands for the \<^verbatim>\<open>std::length_error\<close> or
  \<^verbatim>\<open>std::bad_alloc\<close> of a string that cannot be allocated. The other two are not
  exceptions but what the program does to itself: \<open>StackOverflow\<close> is the crash when
  the array \<^verbatim>\<open>char value_data[value_sz]\<close> of \<^verbatim>\<open>Get\<close> does not fit the stack, and
  \<open>IndeterminateValue\<close> is the result of \<^verbatim>\<open>Get\<close> after a read that falls short: the
  array is not initialised, so the bytes the read did not reach are indeterminate.
\<close>

datatype error = MissingKeyException string | AllocationFailure | StackOverflow | IndeterminateValue

record limits =
  stack_max :: nat
  string_max :: nat

text \<open>
  Limits for the examples: a stack of 8 MiB, the default of a Linux process, none of
  it used yet, and the \<^verbatim>\<open>max_size\<close> of a 64-bit libstdc++ string.
\<close>

definition example_limits :: limits where
  "example_limits = \<lparr>stack_max = 8388608, string_max = 4611686018427387903\<rparr>"

text \<open>
  The store: \<open>db_path\<close> and \<open>key_dir\<close> (the members \<^verbatim>\<open>db_path_\<close> and \<^verbatim>\<open>key_dir_\<close>), and the directory \<open>disk\<close> the store reads
  and writes. The output stream \<^verbatim>\<open>f_\<close> is the file \<open>db_path\<close> of \<open>disk\<close>: it was
  opened truncated, only this store writes to it and every write is flushed, so the
  put position of the stream is the length of that file.
\<close>

record Bitcask =
  db_path :: string
  key_dir :: KeyDirMap
  disk :: "(string \<times> string) list"

subsection \<open>Input streams\<close>

text \<open>
  A \<^verbatim>\<open>std::istream\<close> over a file: its bytes, the get position, and whether
  \<^verbatim>\<open>failbit\<close> is set (the stream then converts to \<^verbatim>\<open>false\<close>).
  \<open>read n\<close> is \<^verbatim>\<open>istream::read(buf, n)\<close>: it returns the characters stored into the
  buffer. On a failed stream nothing is extracted; a read that meets the end of the
  file stores what is there and sets \<^verbatim>\<open>eofbit | failbit\<close>.
\<close>

record istream =
  content :: string
  gpos :: nat
  failed :: bool

definition read :: "nat \<Rightarrow> istream \<Rightarrow> string \<times> istream" where
  "read n input =
     (if failed input then ([], input)
      else let got = take n (drop (gpos input) (content input))
           in (got, input\<lparr>gpos := gpos input + length got, failed := length got < n\<rparr>))"

text \<open>The bytes a stream still gives: none once it has failed.\<close>

definition remaining :: "istream \<Rightarrow> string" where
  "remaining input = (if failed input then [] else drop (gpos input) (content input))"

text \<open>
  \<^verbatim>\<open>ReadToTarget(input, T* target)\<close> reads \<^verbatim>\<open>sizeof(target)\<close> bytes, the size of a
  pointer (8), over the object; bytes the read does not reach keep their old value.
\<close>

definition ReadToTarget :: "istream \<Rightarrow> 64 word \<Rightarrow> 64 word \<times> istream" where
  "ReadToTarget input target =
     (let (got, input') = read 8 input
      in (bytes_word (got @ drop (length got) (word_bytes target)), input'))"

text \<open>
  The string overload: clear, resize to \<open>sz\<close> (zero-filled), read over the data. The
  resize is made whatever the state of the stream, and throws when \<open>sz\<close> bytes cannot
  be allocated.
\<close>

definition ReadToTarget_string :: "limits \<Rightarrow> istream \<Rightarrow> nat \<Rightarrow> error + string \<times> istream" where
  "ReadToTarget_string L input sz =
     (if string_max L < sz then Inl AllocationFailure
      else let (got, input') = read sz input
           in Inr (got @ replicate (sz - length got) (CHR 0x00), input'))"

text \<open>\<^verbatim>\<open>WriteToTarget(output, T* target)\<close> writes the 8 bytes of the object.\<close>

definition WriteToTarget :: "string \<Rightarrow> 64 word \<Rightarrow> string" where
  "WriteToTarget output target = output @ word_bytes target"

subsection \<open>The record codec\<close>

definition ValueOffset :: "CaskEntry \<Rightarrow> nat" where
  "ValueOffset e = 8 + 8 + 8 + length (key e)"

text \<open>
  The extraction operator \<^verbatim>\<open>operator>>(std::istream&, CaskEntry&)\<close>: all five reads
  are made; an exception of a resize leaves the operator at once.
\<close>

definition extract_entry :: "limits \<Rightarrow> istream \<Rightarrow> CaskEntry \<Rightarrow> error + istream \<times> CaskEntry" where
  "extract_entry L input cask_entry =
     (let (ts, i1) = ReadToTarget input (CaskEntry.timestamp cask_entry);
          (ks, i2) = ReadToTarget i1 (key_sz cask_entry);
          (vs, i3) = ReadToTarget i2 (CaskEntry.value_sz cask_entry)
      in case ReadToTarget_string L i3 (unat ks) of
           Inl err \<Rightarrow> Inl err
         | Inr (k, i4) \<Rightarrow>
             (case ReadToTarget_string L i4 (unat vs) of
                Inl err \<Rightarrow> Inl err
              | Inr (v, i5) \<Rightarrow>
                  Inr (i5, \<lparr>CaskEntry.timestamp = ts, key_sz = ks, value_sz = vs,
                            key = k, value = v\<rparr>)))"

text \<open>The insertion operator \<^verbatim>\<open>operator<<(std::ostream&, CaskEntry&)\<close>, on the bytes of the output.\<close>

definition insert_entry :: "string \<Rightarrow> CaskEntry \<Rightarrow> string" where
  "insert_entry output cask_entry =
     (let o1 = WriteToTarget output (CaskEntry.timestamp cask_entry);
          o2 = WriteToTarget o1 (key_sz cask_entry);
          o3 = WriteToTarget o2 (CaskEntry.value_sz cask_entry)
      in o3 @ key cask_entry @ value cask_entry)"

text \<open>The bytes of one record: what the insertion operator adds to an empty output.\<close>

definition encode :: "CaskEntry \<Rightarrow> string" where
  "encode e = insert_entry [] e"

text \<open>
  Decoding the first record of a byte sequence, with a fresh \<^verbatim>\<open>CaskEntry\<close> as target:
  the record and the number of bytes consumed, or \<open>None\<close> when the stream ends failed
  (the short read).
\<close>

definition fresh_entry :: CaskEntry where
  "fresh_entry = \<lparr>CaskEntry.timestamp = 0, key_sz = 0, value_sz = 0, key = [], value = []\<rparr>"

definition open_stream :: "string \<Rightarrow> istream" where
  "open_stream bs = \<lparr>content = bs, gpos = 0, failed = False\<rparr>"

definition decode :: "limits \<Rightarrow> string \<Rightarrow> error + (CaskEntry \<times> nat) option" where
  "decode L bs =
     (case extract_entry L (open_stream bs) fresh_entry of
        Inl err \<Rightarrow> Inl err
      | Inr (input, e) \<Rightarrow> Inr (if failed input then None else Some (e, gpos input)))"

subsection \<open>Recovery (the loops of \<^verbatim>\<open>Bitcask::Open\<close>)\<close>

text \<open>The body of the \<^verbatim>\<open>while\<close> loop: one decoded record is folded into the KeyDir.\<close>

definition replay_entry :: "string \<Rightarrow> nat \<Rightarrow> CaskEntry \<Rightarrow> KeyDirMap \<Rightarrow> KeyDirMap" where
  "replay_entry cask_file_path entry_start entry kd =
     (case map_of kd (key entry) of
        Some existing_key \<Rightarrow>
          if sint (CaskEntry.timestamp entry) \<le> sint (KeyDirEntry.timestamp existing_key)
          then kd
          else if value entry = kTombstoneValue then AList.delete (key entry) kd
          else AList.update (key entry)
                 \<lparr>file_id = cask_file_path, value_sz = CaskEntry.value_sz entry,
                  value_pos = entry_start + ValueOffset entry,
                  timestamp = CaskEntry.timestamp entry\<rparr> kd
      | None \<Rightarrow>
          if value entry = kTombstoneValue then AList.delete (key entry) kd
          else AList.update (key entry)
                 \<lparr>file_id = cask_file_path, value_sz = CaskEntry.value_sz entry,
                  value_pos = entry_start + ValueOffset entry,
                  timestamp = CaskEntry.timestamp entry\<rparr> kd)"

text \<open>
  \<^verbatim>\<open>while (entry_start = cask_file.tellg(), cask_file >> entry) { ... }\<close>: the loop
  ends at the first extraction that leaves the stream failed; an exception of the
  extraction leaves the loop and \<^verbatim>\<open>Open\<close>.
\<close>

function replay_file ::
  "limits \<Rightarrow> string \<Rightarrow> istream \<Rightarrow> CaskEntry \<Rightarrow> KeyDirMap \<Rightarrow> error + KeyDirMap" where
  "replay_file L cask_file_path cask_file entry kd =
     (let entry_start = gpos cask_file
      in case extract_entry L cask_file entry of
           Inl err \<Rightarrow> Inl err
         | Inr (cask_file', entry') \<Rightarrow>
             if failed cask_file' then Inr kd
             else replay_file L cask_file_path cask_file' entry'
                    (replay_entry cask_file_path entry_start entry' kd))"
  by pat_completeness auto
termination
proof (relation "measure (\<lambda>(L, p, f, e, kd). length (content f) - gpos f)")
  show "wf (measure (\<lambda>(L, p, f, e, kd). length (content f) - gpos f))"
    by simp
next
  fix L :: limits and cask_file_path :: string and cask_file :: istream and entry :: CaskEntry
    and kd :: KeyDirMap and entry_start x cask_file' entry'
  assume a: "extract_entry L cask_file entry = Inr x" "(cask_file', entry') = x"
    "\<not> failed cask_file'"
  have r: "\<And>n i g i'. read n i = (g, i') \<Longrightarrow> \<not> failed i' \<Longrightarrow>
      \<not> failed i \<and> content i' = content i \<and> gpos i' = gpos i + n"
    by (auto simp: read_def Let_def min_def split: if_splits)
  have r8: "\<And>i g i'. read 8 i = (g, i') \<Longrightarrow> \<not> failed i' \<Longrightarrow> gpos i < length (content i)"
    by (auto simp: read_def Let_def min_def split: if_splits)
  obtain ts i1 where 1: "ReadToTarget cask_file (CaskEntry.timestamp entry) = (ts, i1)"
    by fastforce
  obtain ks i2 where 2: "ReadToTarget i1 (key_sz entry) = (ks, i2)"
    by fastforce
  obtain vs i3 where 3: "ReadToTarget i2 (CaskEntry.value_sz entry) = (vs, i3)"
    by fastforce
  from a 1 2 3 obtain k i4 where 4: "ReadToTarget_string L i3 (unat ks) = Inr (k, i4)"
    by (auto simp: extract_entry_def split: sum.splits)
  from a 1 2 3 4 obtain v i5 where 5: "ReadToTarget_string L i4 (unat vs) = Inr (v, i5)"
    by (auto simp: extract_entry_def split: sum.splits)
  from a 1 2 3 4 5 have e: "cask_file' = i5"
    by (auto simp: extract_entry_def)
  from 5 obtain g5 where r5: "read (unat vs) i4 = (g5, i5)"
    by (auto simp: ReadToTarget_string_def split: prod.splits if_splits)
  from 4 obtain g4 where r4: "read (unat ks) i3 = (g4, i4)"
    by (auto simp: ReadToTarget_string_def split: prod.splits if_splits)
  from 3 obtain g3 where r3: "read 8 i2 = (g3, i3)"
    by (auto simp: ReadToTarget_def split: prod.splits)
  from 2 obtain g2 where r2: "read 8 i1 = (g2, i2)"
    by (auto simp: ReadToTarget_def split: prod.splits)
  from 1 obtain g1 where r1: "read 8 cask_file = (g1, i1)"
    by (auto simp: ReadToTarget_def split: prod.splits)
  from a e have f5: "\<not> failed i5" by simp
  note s5 = r [OF r5 f5]
  note s4 = r [OF r4 conjunct1 [OF s5]]
  note s3 = r [OF r3 conjunct1 [OF s4]]
  note s2 = r [OF r2 conjunct1 [OF s3]]
  note s1 = r [OF r1 conjunct1 [OF s2]]
  note b = r8 [OF r1 conjunct1 [OF s2]]
  from s1 s2 s3 s4 s5 e b
  show "((L, cask_file_path, cask_file', entry',
          replay_entry cask_file_path entry_start entry' kd),
         (L, cask_file_path, cask_file, entry, kd))
        \<in> measure (\<lambda>(L, p, f, e, kd). length (content f) - gpos f)"
    by simp
qed

text \<open>
  \<^verbatim>\<open>fs::path::extension\<close> of a file name: empty for \<^verbatim>\<open>.\<close> and \<^verbatim>\<open>..\<close> and for a name
  with no period after its first character, else the part from the last period on.
\<close>

definition extension :: "string \<Rightarrow> string" where
  "extension f =
     (if f = ''.'' \<or> f = ''..'' \<or> CHR ''.'' \<notin> set (tl f) then []
      else CHR ''.'' # rev (takeWhile (\<lambda>c. c \<noteq> CHR ''.'') (rev f)))"

text \<open>The \<^verbatim>\<open>for\<close> loop over the directory: files without the suffix are skipped.\<close>

fun load_files :: "limits \<Rightarrow> (string \<times> string) list \<Rightarrow> KeyDirMap \<Rightarrow> error + KeyDirMap" where
  "load_files L [] kd = Inr kd"
| "load_files L ((name, bytes) # rest) kd =
     (if extension name \<noteq> kCaskSuffix then load_files L rest kd
      else case replay_file L name (open_stream bytes) fresh_entry kd of
             Inl err \<Rightarrow> Inl err
           | Inr kd' \<Rightarrow> load_files L rest kd')"

text \<open>\<^verbatim>\<open>std::to_string\<close> of an \<^verbatim>\<open>int64_t\<close>: decimal digits, a minus sign when negative.\<close>

fun digits :: "nat \<Rightarrow> string" where
  "digits n = (if n < 10 then [char_of (48 + n)]
               else digits (n div 10) @ [char_of (48 + n mod 10)])"

declare digits.simps [simp del]

definition to_string :: "64 word \<Rightarrow> string" where
  "to_string x = (if sint x < 0 then CHR ''-'' # digits (nat (- sint x)) else digits (nat (sint x)))"

subsection \<open>The public interface\<close>

text \<open>
  \<open>Open L dir now\<close>: the KeyDir is built from the files of \<open>dir\<close>; then the
  constructor creates (or truncates) the file named after the clock value \<open>now\<close>.
  An exception of the recovery leaves \<open>Open\<close> before that.
\<close>

definition Open :: "limits \<Rightarrow> (string \<times> string) list \<Rightarrow> 64 word \<Rightarrow> error + Bitcask" where
  "Open L dir now =
     (case load_files L dir [] of
        Inl err \<Rightarrow> Inl err
      | Inr kd \<Rightarrow>
          let path = to_string now @ kCaskSuffix
          in Inr \<lparr>db_path = path, key_dir = kd, disk = AList.update path [] dir\<rparr>)"

text \<open>The bytes written through \<^verbatim>\<open>f_\<close> so far, and \<^verbatim>\<open>f_->tellp()\<close>.\<close>

definition active :: "Bitcask \<Rightarrow> string" where
  "active s = (case map_of (disk s) (db_path s) of None \<Rightarrow> [] | Some bytes \<Rightarrow> bytes)"

definition tellp :: "Bitcask \<Rightarrow> nat" where
  "tellp s = length (active s)"

definition Put :: "64 word \<Rightarrow> string \<Rightarrow> string \<Rightarrow> Bitcask \<Rightarrow> Bitcask" where
  "Put time_us k v s =
     (let value_size = of_nat (length v);
          cask_entry = \<lparr>CaskEntry.timestamp = time_us, key_sz = of_nat (length k),
                        value_sz = value_size, key = k, value = v\<rparr>;
          value_pos = tellp s + ValueOffset cask_entry;
          f = insert_entry (active s) cask_entry
      in s\<lparr>key_dir := AList.update k
               \<lparr>file_id = db_path s, value_sz = value_size, value_pos = value_pos,
                timestamp = time_us\<rparr> (key_dir s),
            disk := AList.update (db_path s) f (disk s)\<rparr>)"

text \<open>
  \<open>Get\<close>: the lookup; the input stream on the file of the entry (a stream on a file
  that does not exist is failed and gives no bytes); the array of \<open>value_sz\<close> bytes on
  the stack; the read into it; the string built from the array.
\<close>

definition Get :: "limits \<Rightarrow> string \<Rightarrow> Bitcask \<Rightarrow> error + string" where
  "Get L k s =
     (case map_of (key_dir s) k of
        None \<Rightarrow> Inl (MissingKeyException k)
      | Some key_dir_entry \<Rightarrow>
          let bytes = (case map_of (disk s) (file_id key_dir_entry) of
                         None \<Rightarrow> [] | Some file_bytes \<Rightarrow> file_bytes);
              n = unat (KeyDirEntry.value_sz key_dir_entry);
              value_data = take n (drop (value_pos key_dir_entry) bytes)
          in if stack_max L < n then Inl StackOverflow
             else if string_max L < n then Inl AllocationFailure
             else if length value_data < n then Inl IndeterminateValue
             else Inr value_data)"

definition Delete :: "64 word \<Rightarrow> string \<Rightarrow> Bitcask \<Rightarrow> Bitcask" where
  "Delete time_us k s =
     (if map_of (key_dir s) k = None then s
      else let s' = Put time_us k kTombstoneValue s
           in s'\<lparr>key_dir := AList.delete k (key_dir s')\<rparr>)"

definition ListKeys :: "Bitcask \<Rightarrow> string list" where
  "ListKeys s = map fst (key_dir s)"

subsection \<open>Sequences of operations\<close>

text \<open>One call of the interface, with the clock value the call reads.\<close>

datatype op = PutOp "64 word" string string | DeleteOp "64 word" string

fun apply_op :: "op \<Rightarrow> Bitcask \<Rightarrow> Bitcask" where
  "apply_op (PutOp time_us k v) s = Put time_us k v s"
| "apply_op (DeleteOp time_us k) s = Delete time_us k s"

fun run :: "op list \<Rightarrow> Bitcask \<Rightarrow> Bitcask" where
  "run [] s = s"
| "run (x # xs) s = run xs (apply_op x s)"

fun is_put_of :: "string \<Rightarrow> op \<Rightarrow> bool" where
  "is_put_of k (PutOp time_us k' v) = (k' = k)"
| "is_put_of k (DeleteOp time_us k') = False"

text \<open>The keys that are live after a sequence of calls, starting from the live keys \<open>S\<close>.\<close>

fun live_keys :: "op list \<Rightarrow> string set \<Rightarrow> string set" where
  "live_keys [] S = S"
| "live_keys (PutOp time_us k v # ops) S = live_keys ops (insert k S)"
| "live_keys (DeleteOp time_us k # ops) S = live_keys ops (S - {k})"

subsection \<open>Segments as sequences of records\<close>

text \<open>
  A record as \<^verbatim>\<open>Put\<close> builds it: the size fields are the lengths of the key and of
  the value.
\<close>

definition wf_entry :: "CaskEntry \<Rightarrow> bool" where
  "wf_entry e \<longleftrightarrow>
     unat (key_sz e) = length (key e) \<and> unat (CaskEntry.value_sz e) = length (value e)"

definition segment :: "CaskEntry list \<Rightarrow> string" where
  "segment rs = concat (map encode rs)"

text \<open>
  Replaying the records \<open>rs\<close> of the file \<open>path\<close> in file order, the first one starting
  at byte \<open>start\<close>: the reference the recovery loop is compared with.
\<close>

fun replay_all :: "string \<Rightarrow> nat \<Rightarrow> CaskEntry list \<Rightarrow> KeyDirMap \<Rightarrow> KeyDirMap" where
  "replay_all path start [] kd = kd"
| "replay_all path start (r # rs) kd =
     replay_all path (start + length (encode r)) rs (replay_entry path start r kd)"




definition dir_of :: "(string \<times> CaskEntry list) list \<Rightarrow> (string \<times> string) list" where
  "dir_of segs = map (\<lambda>(name, rs). (name, segment rs)) segs"




text \<open>
  A record the process can hold: well formed, with a key and a value that strings of
  the process can take.
\<close>

definition holdable :: "limits \<Rightarrow> CaskEntry \<Rightarrow> bool" where
  "holdable L e \<longleftrightarrow>
     wf_entry e \<and> length (key e) \<le> string_max L \<and> length (value e) \<le> string_max L"

text \<open>Replaying the segments of a directory one after the other, in the order given.\<close>

fun replay_dir :: "(string \<times> CaskEntry list) list \<Rightarrow> KeyDirMap \<Rightarrow> KeyDirMap" where
  "replay_dir [] kd = kd"
| "replay_dir ((name, rs) # segs) kd = replay_dir segs (replay_all name 0 rs kd)"

subsection \<open>The KeyDir invariant, in the words of the specification\<close>










declare replay_file.simps [simp del]



section \<open>Properties\<close>

subsection \<open>Byte images\<close>

lemma length_le_bytes [simp]: "length (le_bytes n x) = n"
  by (induction n arbitrary: x) auto

lemma le_nat_le_bytes: "le_nat (le_bytes n x) = x mod 256 ^ n"
proof (induction n arbitrary: x)
  case 0
  show ?case by simp
next
  case (Suc n)
  have "x mod (256 * 256 ^ n) = 256 * (x div 256 mod 256 ^ n) + x mod 256"
    by (rule mod_mult2_eq)
  with Suc show ?case by simp
qed

lemma length_word_bytes [simp]: "length (word_bytes w) = 8"
  by (simp add: word_bytes_def)

lemma bytes_word_word_bytes [simp]: "bytes_word (word_bytes w) = w"
proof -
  have "unat w < 2 ^ 64"
    using unsigned_less [of w, where 'a = nat] by simp
  then have "unat w mod 256 ^ 8 = unat w"
    by simp
  then show ?thesis
    by (simp add: bytes_word_def word_bytes_def le_nat_le_bytes)
qed

lemma unat_of_nat_length: "n < 2 ^ 64 \<Longrightarrow> unat (of_nat n :: 64 word) = n"
  by (simp add: unat_of_nat)

lemma of_char_less_256: "(of_char c :: nat) < 256"
proof -
  have "(of_char c :: nat) = of_char (char_of (of_char c :: nat))"
    by simp
  also have "\<dots> = (of_char c :: nat) mod 256"
    by (simp only: of_char_of)
  also have "\<dots> < 256"
    by simp
  finally show ?thesis .
qed

lemma le_bytes_le_nat: "le_bytes (length bs) (le_nat bs) = bs"
proof (induction bs)
  case Nil
  show ?case by simp
next
  case (Cons c cs)
  have m: "(of_char c + 256 * le_nat cs) mod 256 = (of_char c :: nat)"
    using of_char_less_256 [of c] by simp
  have d: "(of_char c + 256 * le_nat cs) div 256 = le_nat cs"
    using of_char_less_256 [of c] by simp
  from Cons show ?case
    by (simp add: m d del: char_of_mod_256)
qed

lemma le_nat_less: "le_nat bs < 256 ^ length bs"
proof (induction bs)
  case Nil
  show ?case by simp
next
  case (Cons c cs)
  have "of_char c + 256 * le_nat cs < 256 + 256 * le_nat cs"
    using of_char_less_256 [of c] by simp
  also have "\<dots> = 256 * Suc (le_nat cs)"
    by simp
  also have "\<dots> \<le> 256 * 256 ^ length cs"
    using Cons by (simp only: mult_le_cancel1 Suc_le_eq) simp
  finally show ?case by simp
qed

lemma word_bytes_bytes_word: "length bs = 8 \<Longrightarrow> word_bytes (bytes_word bs) = bs"
proof -
  assume l: "length bs = 8"
  have "le_nat bs < 256 ^ 8"
    using le_nat_less [of bs] l by simp
  then have "unat (of_nat (le_nat bs) :: 64 word) = le_nat bs"
    by (simp add: unat_of_nat)
  then show ?thesis
    using le_bytes_le_nat [of bs] l by (simp add: word_bytes_def bytes_word_def)
qed


lemma le_nat_append: "le_nat (xs @ ys) = le_nat xs + 256 ^ length xs * le_nat ys"
  by (induction xs) (simp_all add: algebra_simps)

lemma take_le_bytes: "m \<le> n \<Longrightarrow> take m (le_bytes n x) = le_bytes m x"
proof (induction n arbitrary: m x)
  case 0
  then show ?case by simp
next
  case (Suc n)
  then show ?case by (cases m) simp_all
qed

lemma drop_le_bytes: "drop m (le_bytes n x) = le_bytes (n - m) (x div 256 ^ m)"
proof (induction n arbitrary: m x)
  case 0
  show ?case by simp
next
  case (Suc n)
  show ?case
  proof (cases m)
    case 0
    then show ?thesis by simp
  next
    case (Suc m')
    have "x div 256 div 256 ^ m' = x div (256 * 256 ^ m')"
      by (simp add: div_mult2_eq)
    with Suc Suc.IH [of m' "x div 256"] show ?thesis by simp
  qed
qed

text \<open>
  An 8-byte object of which the first \<open>m\<close> bytes were overwritten with those of \<open>a\<close>
  and the others keep those of \<open>b\<close>.
\<close>

lemma unat_overwritten:
  assumes "m \<le> 8"
  shows "unat (bytes_word (take m (word_bytes a) @ drop m (word_bytes b)))
         = unat a mod 256 ^ m + 256 ^ m * (unat b div 256 ^ m)"
proof -
  let ?bs = "take m (word_bytes a) @ drop m (word_bytes b)"
  have ub: "unat b < 256 ^ 8"
    using unsigned_less [of b, where 'a = nat] by simp
  have "256 ^ 8 = (256::nat) ^ m * 256 ^ (8 - m)"
    using assms by (simp flip: power_add)
  with ub have "unat b div 256 ^ m < 256 ^ (8 - m)"
    by (simp add: less_mult_imp_div_less mult.commute)
  then have q: "unat b div 256 ^ m mod 256 ^ (8 - m) = unat b div 256 ^ m"
    by simp
  have v: "le_nat ?bs = unat a mod 256 ^ m + 256 ^ m * (unat b div 256 ^ m)"
    using assms
    by (simp add: le_nat_append word_bytes_def take_le_bytes drop_le_bytes le_nat_le_bytes q)
  have "le_nat ?bs < 256 ^ 8"
    using le_nat_less [of ?bs] assms by simp
  then have "unat (of_nat (le_nat ?bs) :: 64 word) = le_nat ?bs"
    by (simp add: unat_of_nat)
  with v show ?thesis
    by (simp only: bytes_word_def)
qed

lemma overwritten_fresh:
  assumes "m \<le> 8"
  shows "unat (bytes_word (take m (word_bytes a) @ drop m (word_bytes 0))) \<le> unat a"
  using assms by (simp add: unat_overwritten)



subsection \<open>The codec\<close>

lemma insert_entry_append: "insert_entry out e = out @ encode e"
  by (simp add: insert_entry_def encode_def WriteToTarget_def)

lemma encode_eq: "encode e = word_bytes (CaskEntry.timestamp e) @ word_bytes (key_sz e) @ word_bytes (CaskEntry.value_sz e) @ key e @ value e"
  by (simp add: insert_entry_def encode_def WriteToTarget_def)

lemma length_encode: "length (encode e) = 24 + length (key e) + length (value e)"
  by (simp add: encode_eq)

lemma read_exact:
  assumes "\<not> failed st" "drop (gpos st) (content st) = bs @ rest" "length bs = n"
  shows "read n st = (bs, st\<lparr>gpos := gpos st + n\<rparr>)"
  using assms by (simp add: read_def Let_def)

lemma drop_after:
  assumes "drop p c = bs @ rest"
  shows "drop (p + length bs) c = rest"
proof -
  have "drop (p + length bs) c = drop (length bs) (drop p c)"
    by (simp add: add.commute)
  with assms show ?thesis by simp
qed

lemma ReadToTarget_exact:
  assumes "\<not> failed st" "drop (gpos st) (content st) = word_bytes w @ rest"
  shows "ReadToTarget st t = (w, st\<lparr>gpos := gpos st + 8\<rparr>)"
  using read_exact [OF assms, of 8] by (simp add: ReadToTarget_def)

lemma ReadToTarget_string_exact:
  assumes "\<not> failed st" "drop (gpos st) (content st) = bs @ rest" "length bs = n"
    and "n \<le> string_max L"
  shows "ReadToTarget_string L st n = Inr (bs, st\<lparr>gpos := gpos st + n\<rparr>)"
  using read_exact [OF assms(1-3)] assms(3,4) by (simp add: ReadToTarget_string_def)

lemma ReadToTarget_string_throws:
  "string_max L < n \<Longrightarrow> ReadToTarget_string L st n = Inl AllocationFailure"
  by (simp add: ReadToTarget_string_def)

lemma ReadToTarget_string_Inr:
  "n \<le> string_max L \<Longrightarrow> \<exists>x. ReadToTarget_string L st n = Inr x"
  by (simp add: ReadToTarget_string_def split: prod.splits)

lemma extract_entry_complete:
  assumes nf: "\<not> failed st" and wf: "wf_entry r"
    and d: "drop (gpos st) (content st) = encode r @ rest"
  shows "extract_entry L st e =
     (if string_max L < length (key r) \<or> string_max L < length (value r)
      then Inl AllocationFailure
      else Inr (st\<lparr>gpos := gpos st + length (encode r)\<rparr>, r))"
proof -
  let ?ts = "CaskEntry.timestamp r" and ?ks = "key_sz r" and ?vs = "CaskEntry.value_sz r"
  let ?i1 = "st\<lparr>gpos := gpos st + 8\<rparr>"
  let ?i2 = "st\<lparr>gpos := gpos st + 16\<rparr>"
  let ?i3 = "st\<lparr>gpos := gpos st + 24\<rparr>"
  let ?i4 = "st\<lparr>gpos := gpos st + 24 + length (key r)\<rparr>"
  let ?i5 = "st\<lparr>gpos := gpos st + 24 + length (key r) + length (value r)\<rparr>"
  have uk: "unat ?ks = length (key r)" and uv: "unat ?vs = length (value r)"
    using wf by (simp_all add: wf_entry_def)
  have d0: "drop (gpos st) (content st) = word_bytes ?ts @ (word_bytes ?ks @ word_bytes ?vs @ key r @ value r @ rest)"
    using d by (simp add: encode_eq)
  have 1: "ReadToTarget st (CaskEntry.timestamp e) = (?ts, ?i1)"
    by (rule ReadToTarget_exact [OF nf d0])
  have d1: "drop (gpos ?i1) (content ?i1) = word_bytes ?ks @ (word_bytes ?vs @ key r @ value r @ rest)"
    using drop_after [OF d0] by simp
  have 2: "ReadToTarget ?i1 (key_sz e) = (?ks, ?i2)"
    using ReadToTarget_exact [OF _ d1, of "key_sz e"] nf by simp
  have d2: "drop (gpos ?i2) (content ?i2) = word_bytes ?vs @ (key r @ value r @ rest)"
    using drop_after [OF d1] by (simp add: add.assoc)
  have 3: "ReadToTarget ?i2 (CaskEntry.value_sz e) = (?vs, ?i3)"
    using ReadToTarget_exact [OF _ d2, of "CaskEntry.value_sz e"] nf by simp
  have d3: "drop (gpos ?i3) (content ?i3) = key r @ (value r @ rest)"
    using drop_after [OF d2] by (simp add: add.assoc)
  show ?thesis
  proof (cases "string_max L < length (key r)")
    case True
    with 1 2 3 uk show ?thesis
      by (simp add: extract_entry_def ReadToTarget_string_throws)
  next
    case kfits: False
    have 4: "ReadToTarget_string L ?i3 (unat ?ks) = Inr (key r, ?i4)"
      using ReadToTarget_string_exact [OF _ d3, of "length (key r)" L] nf uk kfits
      by simp
    have d4: "drop (gpos ?i4) (content ?i4) = value r @ rest"
      using drop_after [OF d3] by (simp add: add.assoc)
    show ?thesis
    proof (cases "string_max L < length (value r)")
      case True
      with 1 2 3 4 uv kfits show ?thesis
        by (simp add: extract_entry_def ReadToTarget_string_throws)
    next
      case vfits: False
      have 5: "ReadToTarget_string L ?i4 (unat ?vs) = Inr (value r, ?i5)"
        using ReadToTarget_string_exact [OF _ d4, of "length (value r)" L] nf uv vfits
        by (simp add: add.assoc)
      from 1 2 3 4 5 kfits vfits show ?thesis
        by (simp add: extract_entry_def length_encode add.assoc)
    qed
  qed
qed

lemma extract_entry_holdable:
  assumes "\<not> failed st" "holdable L r" "drop (gpos st) (content st) = encode r @ rest"
  shows "extract_entry L st e = Inr (st\<lparr>gpos := gpos st + length (encode r)\<rparr>, r)"
  using extract_entry_complete [OF assms(1) _ assms(3), of L e] assms(2)
  by (simp add: holdable_def)

lemma read_failed: "failed st \<Longrightarrow> failed (snd (read n st))"
  by (simp add: read_def)

lemma read_success:
  assumes "read n st = (g, st')" "\<not> failed st'"
  shows "\<not> failed st \<and> st' = st\<lparr>gpos := gpos st + n\<rparr> \<and> length g = n
         \<and> drop (gpos st) (content st) = g @ drop (gpos st + n) (content st)"
proof -
  from assms have nf: "\<not> failed st"
    by (auto simp: read_def split: if_splits)
  let ?g = "take n (drop (gpos st) (content st))"
  from assms nf have g: "g = ?g" and l: "\<not> length ?g < n"
    and st': "st' = st\<lparr>gpos := gpos st + length ?g, failed := length ?g < n\<rparr>"
    by (auto simp: read_def Let_def)
  from l have ln: "length ?g = n" by simp
  have "drop (gpos st + n) (content st) = drop n (drop (gpos st) (content st))"
    by (simp add: add.commute)
  then have "drop (gpos st) (content st) = ?g @ drop (gpos st + n) (content st)"
    by (simp only: append_take_drop_id)
  with nf g ln st' show ?thesis by simp
qed

lemma ReadToTarget_success:
  assumes "ReadToTarget st t = (w, st')" "\<not> failed st'"
  shows "\<not> failed st \<and> st' = st\<lparr>gpos := gpos st + 8\<rparr>
         \<and> drop (gpos st) (content st) = word_bytes w @ drop (gpos st + 8) (content st)"
proof -
  obtain g where r: "read 8 st = (g, st')" and w: "w = bytes_word (g @ drop (length g) (word_bytes t))"
    using assms(1) by (auto simp: ReadToTarget_def split: prod.splits)
  note s = read_success [OF r assms(2)]
  from s w have "word_bytes w = g"
    by (simp add: word_bytes_bytes_word)
  with s show ?thesis by simp
qed

lemma ReadToTarget_string_success:
  assumes "ReadToTarget_string L st n = Inr (bs, st')" "\<not> failed st'"
  shows "\<not> failed st \<and> st' = st\<lparr>gpos := gpos st + n\<rparr> \<and> length bs = n
         \<and> drop (gpos st) (content st) = bs @ drop (gpos st + n) (content st)"
proof -
  obtain g where r: "read n st = (g, st')" and b: "bs = g @ replicate (n - length g) (CHR 0x00)"
    using assms(1) by (auto simp: ReadToTarget_string_def split: prod.splits if_splits)
  note s = read_success [OF r assms(2)]
  from s b have "bs = g" by simp
  with s show ?thesis by simp
qed

lemma extract_entry_success:
  assumes x: "extract_entry L st e = Inr (st', e')" and nf': "\<not> failed st'"
  shows "\<not> failed st \<and> wf_entry e' \<and> st' = st\<lparr>gpos := gpos st + length (encode e')\<rparr>
         \<and> drop (gpos st) (content st) = encode e' @ drop (gpos st + length (encode e')) (content st)"
proof -
  obtain ts i1 where 1: "ReadToTarget st (CaskEntry.timestamp e) = (ts, i1)" by fastforce
  obtain ks i2 where 2: "ReadToTarget i1 (key_sz e) = (ks, i2)" by fastforce
  obtain vs i3 where 3: "ReadToTarget i2 (CaskEntry.value_sz e) = (vs, i3)" by fastforce
  from x 1 2 3 obtain k i4 where 4: "ReadToTarget_string L i3 (unat ks) = Inr (k, i4)"
    by (auto simp: extract_entry_def split: sum.splits)
  from x 1 2 3 4 obtain v i5 where 5: "ReadToTarget_string L i4 (unat vs) = Inr (v, i5)"
    by (auto simp: extract_entry_def split: sum.splits)
  from x 1 2 3 4 5 have st': "st' = i5"
    and e': "e' = \<lparr>CaskEntry.timestamp = ts, key_sz = ks, value_sz = vs, key = k, value = v\<rparr>"
    by (auto simp: extract_entry_def)
  from nf' st' have f5: "\<not> failed i5" by simp
  note s5 = ReadToTarget_string_success [OF 5 f5]
  note s4 = ReadToTarget_string_success [OF 4 conjunct1 [OF s5]]
  note s3 = ReadToTarget_success [OF 3 conjunct1 [OF s4]]
  note s2 = ReadToTarget_success [OF 2 conjunct1 [OF s3]]
  note s1 = ReadToTarget_success [OF 1 conjunct1 [OF s2]]
  have wf: "wf_entry e'"
    using s4 s5 e' by (simp add: wf_entry_def)
  have len: "length (encode e') = 24 + unat ks + unat vs"
    using s4 s5 e' by (simp add: length_encode)
  have p: "st' = st\<lparr>gpos := gpos st + length (encode e')\<rparr>"
    using s1 s2 s3 s4 s5 st' len by (simp add: add.assoc)
  have "drop (gpos st) (content st) = word_bytes ts @ word_bytes ks @ word_bytes vs @ k @ v
          @ drop (gpos st + length (encode e')) (content st)"
    using s1 s2 s3 s4 s5 len by (simp add: add.assoc)
  then have d: "drop (gpos st) (content st) = encode e' @ drop (gpos st + length (encode e')) (content st)"
    using e' by (simp add: encode_eq)
  from s1 wf p d show ?thesis by simp
qed

lemma encode_inj:
  assumes "wf_entry r" "wf_entry r'" "encode r @ x = encode r' @ y"
  shows "r = r' \<and> x = y"
proof -
  let ?L = "\<lparr>stack_max = 0, string_max = length (key r) + length (value r) + length (key r') + length (value r')\<rparr>"
  let ?st = "open_stream (encode r @ x)"
  have nf: "\<not> failed ?st" and d: "drop (gpos ?st) (content ?st) = encode r @ x"
    and d': "drop (gpos ?st) (content ?st) = encode r' @ y"
    using assms(3) by (simp_all add: open_stream_def)
  from extract_entry_complete [OF nf assms(1) d, of ?L fresh_entry]
    extract_entry_complete [OF nf assms(2) d', of ?L fresh_entry]
  have "r = r'" by simp
  with assms(3) show ?thesis by simp
qed

text \<open>After a cut inside a record the stream ends failed, if no resize throws before.\<close>

lemma extract_entry_truncated_failed:
  assumes wf: "wf_entry r" and n: "n < length (encode r)"
    and d: "drop (gpos st) (content st) = take n (encode r)"
    and x: "extract_entry L st e = Inr (st', e')"
  shows "failed st'"
proof (rule ccontr)
  assume "\<not> failed st'"
  note s = extract_entry_success [OF x this]
  let ?rest = "drop (gpos st + length (encode e')) (content st)"
  from s d have t: "take n (encode r) = encode e' @ ?rest" by simp
  have "encode r = take n (encode r) @ drop n (encode r)" by simp
  with t have "encode r @ [] = encode e' @ (?rest @ drop n (encode r))" by simp
  from encode_inj [OF wf _ this] s have "r = e'" by simp
  with t have "length (take n (encode r)) \<ge> length (encode r)" by simp
  with n show False by simp
qed

subsection \<open>What a cut header leaves in the size fields\<close>

lemma read_remaining:
  "\<exists>st'. read n st = (take n (remaining st), st')
     \<and> remaining st' = (if length (remaining st) < n then [] else drop n (remaining st))
     \<and> (failed st' \<longleftrightarrow> failed st \<or> length (remaining st) < n)"
  by (auto simp: read_def remaining_def Let_def add.commute)

lemma ReadToTarget_remaining:
  assumes "remaining st = take n (word_bytes a @ rest)"
  shows "\<exists>st'. ReadToTarget st old
           = (bytes_word (take (min n 8) (word_bytes a) @ drop (min n 8) (word_bytes old)), st')
     \<and> remaining st' = take (n - 8) rest"
proof -
  from read_remaining [of 8 st] obtain st' where r: "read 8 st = (take 8 (remaining st), st')"
    and m: "remaining st' = (if length (remaining st) < 8 then [] else drop 8 (remaining st))"
    by blast
  have "take 8 (remaining st) = take (min n 8) (word_bytes a @ rest)"
    by (simp only: assms take_take min.commute)
  also have "\<dots> = take (min n 8) (word_bytes a)"
    by simp
  finally have g: "take 8 (remaining st) = take (min n 8) (word_bytes a)" .
  have "remaining st' = take (n - 8) rest"
  proof (cases "n < 8")
    case True
    with m assms show ?thesis by simp
  next
    case False
    then have "\<not> length (remaining st) < 8"
      by (simp add: assms)
    with m have "remaining st' = drop 8 (take n (word_bytes a @ rest))"
      by (simp add: assms)
    also have "\<dots> = take (n - 8) rest"
      using False by (simp add: drop_take min_def)
    finally show ?thesis .
  qed
  with r g show ?thesis
    by (simp add: ReadToTarget_def)
qed

lemma extract_entry_Inr:
  assumes "ReadToTarget st (CaskEntry.timestamp e) = (ts, i1)"
    and "ReadToTarget i1 (key_sz e) = (ks, i2)"
    and "ReadToTarget i2 (CaskEntry.value_sz e) = (vs, i3)"
    and "unat ks \<le> string_max L" "unat vs \<le> string_max L"
  shows "\<exists>st' e'. extract_entry L st e = Inr (st', e')"
  using assms
  by (auto simp: extract_entry_def ReadToTarget_string_def split: prod.splits)


text \<open>
  The size fields after the extraction has met a record cut after \<open>n\<close> bytes: the
  bytes of the record as far as they were read, over those of the target.
\<close>

lemma cut_record_fields:
  assumes "remaining st = take n (encode r)"
  shows "\<exists>ts i1 i2 i3.
      ReadToTarget st (CaskEntry.timestamp e) = (ts, i1)
    \<and> ReadToTarget i1 (key_sz e)
        = (bytes_word (take (min (n - 8) 8) (word_bytes (key_sz r))
             @ drop (min (n - 8) 8) (word_bytes (key_sz e))), i2)
    \<and> ReadToTarget i2 (CaskEntry.value_sz e)
        = (bytes_word (take (min (n - 16) 8) (word_bytes (CaskEntry.value_sz r))
             @ drop (min (n - 16) 8) (word_bytes (CaskEntry.value_sz e))), i3)"
proof -
  have r0: "remaining st = take n (word_bytes (CaskEntry.timestamp r)
      @ (word_bytes (key_sz r) @ word_bytes (CaskEntry.value_sz r) @ key r @ value r))"
    using assms by (simp add: encode_eq)
  from ReadToTarget_remaining [OF r0, of "CaskEntry.timestamp e"] obtain ts i1
    where 1: "ReadToTarget st (CaskEntry.timestamp e) = (ts, i1)"
      and r1: "remaining i1 = take (n - 8) (word_bytes (key_sz r)
         @ (word_bytes (CaskEntry.value_sz r) @ key r @ value r))"
    by blast
  from ReadToTarget_remaining [OF r1, of "key_sz e"] obtain i2
    where 2: "ReadToTarget i1 (key_sz e)
        = (bytes_word (take (min (n - 8) 8) (word_bytes (key_sz r))
             @ drop (min (n - 8) 8) (word_bytes (key_sz e))), i2)"
      and r2: "remaining i2 = take (n - 8 - 8) (word_bytes (CaskEntry.value_sz r)
         @ (key r @ value r))"
    by blast
  have "n - 8 - 8 = n - 16" by simp
  with r2 have r2': "remaining i2 = take (n - 16) (word_bytes (CaskEntry.value_sz r)
         @ (key r @ value r))"
    by simp
  from ReadToTarget_remaining [OF r2', of "CaskEntry.value_sz e"] obtain i3
    where 3: "ReadToTarget i2 (CaskEntry.value_sz e)
        = (bytes_word (take (min (n - 16) 8) (word_bytes (CaskEntry.value_sz r))
             @ drop (min (n - 16) 8) (word_bytes (CaskEntry.value_sz e))), i3)"
    by blast
  from 1 2 3 show ?thesis by blast
qed




text \<open>
  The extraction that meets a record cut after \<open>n\<close> bytes returns, with the stream
  failed, when the sizes it resizes to can be allocated.
\<close>

lemma extract_at_cut:
  assumes nf: "\<not> failed st" and wf: "wf_entry r" and n: "n < length (encode r)"
    and d: "drop (gpos st) (content st) = take n (encode r)"
    and ks: "unat (bytes_word (take (min (n - 8) 8) (word_bytes (key_sz r))
               @ drop (min (n - 8) 8) (word_bytes (key_sz e)))) \<le> string_max L"
    and vs: "unat (bytes_word (take (min (n - 16) 8) (word_bytes (CaskEntry.value_sz r))
               @ drop (min (n - 16) 8) (word_bytes (CaskEntry.value_sz e)))) \<le> string_max L"
  shows "\<exists>st' e'. extract_entry L st e = Inr (st', e') \<and> failed st'"
proof -
  have "remaining st = take n (encode r)"
    using nf d by (simp add: remaining_def)
  from cut_record_fields [OF this, of e] obtain ts i1 i2 i3 where
    1: "ReadToTarget st (CaskEntry.timestamp e) = (ts, i1)"
    and 2: "ReadToTarget i1 (key_sz e)
        = (bytes_word (take (min (n - 8) 8) (word_bytes (key_sz r))
             @ drop (min (n - 8) 8) (word_bytes (key_sz e))), i2)"
    and 3: "ReadToTarget i2 (CaskEntry.value_sz e)
        = (bytes_word (take (min (n - 16) 8) (word_bytes (CaskEntry.value_sz r))
             @ drop (min (n - 16) 8) (word_bytes (CaskEntry.value_sz e))), i3)"
    by blast
  from extract_entry_Inr [OF 1 2 3 ks vs] obtain st' e'
    where x: "extract_entry L st e = Inr (st', e')" by blast
  from extract_entry_truncated_failed [OF wf n d x] x show ?thesis by blast
qed

text \<open>At the end of the file the size fields keep the sizes of the last record.\<close>

lemma extract_at_end:
  assumes nf: "\<not> failed st" and d: "drop (gpos st) (content st) = []"
    and "unat (key_sz e) \<le> string_max L" "unat (CaskEntry.value_sz e) \<le> string_max L"
  shows "\<exists>st' e'. extract_entry L st e = Inr (st', e') \<and> failed st'"
proof -
  have wf: "wf_entry fresh_entry"
    by (simp add: wf_entry_def fresh_entry_def)
  have n: "0 < length (encode fresh_entry)"
    by (simp add: length_encode)
  have d': "drop (gpos st) (content st) = take 0 (encode fresh_entry)"
    using d by simp
  show ?thesis
    by (rule extract_at_cut [OF nf wf n d']) (simp_all add: assms(3,4))
qed

subsection \<open>The recovery loops\<close>

lemma replay_file_segment:
  assumes "\<not> failed st" "P e" "list_all (\<lambda>r. holdable L r \<and> P r) rs"
    and "drop (gpos st) (content st) = segment rs @ tail"
    and fin: "\<And>st e. \<not> failed st \<Longrightarrow> P e \<Longrightarrow> drop (gpos st) (content st) = tail
           \<Longrightarrow> \<exists>st' e'. extract_entry L st e = Inr (st', e') \<and> failed st'"
  shows "replay_file L path st e kd = Inr (replay_all path (gpos st) rs kd)"
  using assms(1-4)
proof (induction rs arbitrary: st e kd)
  case Nil
  then have "drop (gpos st) (content st) = tail"
    by (simp add: segment_def)
  from fin [OF Nil.prems(1,2) this] show ?case
    by (subst replay_file.simps) (auto simp: Let_def)
next
  case (Cons a rs)
  let ?st' = "st\<lparr>gpos := gpos st + length (encode a)\<rparr>"
  from Cons.prems have h: "holdable L a" and pa: "P a"
    and rest: "list_all (\<lambda>r. holdable L r \<and> P r) rs"
    and d: "drop (gpos st) (content st) = encode a @ (segment rs @ tail)"
    by (simp_all add: segment_def)
  note x = extract_entry_holdable [OF Cons.prems(1) h d, of e]
  have nf': "\<not> failed ?st'" using Cons.prems(1) by simp
  have d': "drop (gpos ?st') (content ?st') = segment rs @ tail"
    using drop_after [OF d] by simp
  have "replay_file L path st e kd
        = replay_file L path ?st' a (replay_entry path (gpos st) a kd)"
    using x nf' by (subst replay_file.simps) (simp add: Let_def)
  also have "\<dots> = Inr (replay_all path (gpos ?st') rs (replay_entry path (gpos st) a kd))"
    by (rule Cons.IH [OF nf' pa rest d'])
  finally show ?case by simp
qed

lemma wf_fresh_entry: "wf_entry fresh_entry"
  by (simp add: wf_entry_def fresh_entry_def)

lemma holdable_sizes:
  "holdable L r \<Longrightarrow> unat (key_sz r) \<le> string_max L \<and> unat (CaskEntry.value_sz r) \<le> string_max L"
  by (simp add: holdable_def wf_entry_def)

lemma replay_file_whole:
  assumes "list_all (holdable L) rs"
  shows "replay_file L path (open_stream (segment rs)) fresh_entry kd
         = Inr (replay_all path 0 rs kd)"
proof -
  let ?P = "\<lambda>e. unat (key_sz e) \<le> string_max L \<and> unat (CaskEntry.value_sz e) \<le> string_max L"
  let ?st = "open_stream (segment rs)"
  have nf: "\<not> failed ?st" and d: "drop (gpos ?st) (content ?st) = segment rs @ []"
    by (simp_all add: open_stream_def)
  have p0: "?P fresh_entry"
    by (simp add: fresh_entry_def)
  have all: "list_all (\<lambda>r. holdable L r \<and> ?P r) rs"
    using assms by (simp add: list_all_iff holdable_sizes)
  have "replay_file L path ?st fresh_entry kd = Inr (replay_all path (gpos ?st) rs kd)"
    by (rule replay_file_segment [where P = ?P, OF nf p0 all d]) (rule extract_at_end, simp_all)
  then show ?thesis
    by (simp add: open_stream_def)
qed

lemma load_files_segment:
  assumes "extension name = kCaskSuffix" "list_all (holdable L) rs"
  shows "load_files L ((name, segment rs) # rest) kd = load_files L rest (replay_all name 0 rs kd)"
  using assms by (simp add: replay_file_whole)

lemma load_files_dir:
  assumes "\<forall>(name, rs) \<in> set segs. extension name = kCaskSuffix \<and> list_all (holdable L) rs"
  shows "load_files L (dir_of segs) kd = Inr (replay_dir segs kd)"
  using assms
proof (induction segs arbitrary: kd)
  case Nil
  show ?case by (simp add: dir_of_def)
next
  case (Cons a segs)
  obtain name rs where a: "a = (name, rs)" by (cases a)
  from Cons.prems a have ext: "extension name = kCaskSuffix" and h: "list_all (holdable L) rs"
    and rest: "\<forall>(name, rs) \<in> set segs. extension name = kCaskSuffix \<and> list_all (holdable L) rs"
    by simp_all
  have "load_files L (dir_of (a # segs)) kd = load_files L (dir_of segs) (replay_all name 0 rs kd)"
    using load_files_segment [OF ext h] by (simp add: dir_of_def a)
  with Cons.IH [OF rest] a show ?case by simp
qed

lemma Open_dir:
  assumes "\<forall>(name, rs) \<in> set segs. extension name = kCaskSuffix \<and> list_all (holdable L) rs"
  shows "Open L (dir_of segs) now
         = Inr \<lparr>db_path = to_string now @ kCaskSuffix, key_dir = replay_dir segs [],
                disk = AList.update (to_string now @ kCaskSuffix) [] (dir_of segs)\<rparr>"
  by (simp add: Open_def load_files_dir [OF assms] Let_def)

lemma Open_empty:
  "Open L [] now = Inr \<lparr>db_path = to_string now @ kCaskSuffix, key_dir = [],
                       disk = [(to_string now @ kCaskSuffix, [])]\<rparr>"
  by (simp add: Open_def Let_def)

lemma Open_Inr:
  assumes "Open L dir now = Inr s"
  shows "load_files L dir [] = Inr (key_dir s) \<and> db_path s = to_string now @ kCaskSuffix
         \<and> disk s = AList.update (to_string now @ kCaskSuffix) [] dir"
  using assms by (auto simp: Open_def Let_def split: sum.splits)

subsection \<open>Put, Get and Delete\<close>

lemma map_of_update_same: "map_of (AList.update k v al) k = Some v"
  by (simp add: update_conv')

lemma active_Put: "active (Put t k v s) = active s @ encode \<lparr>CaskEntry.timestamp = t, key_sz = of_nat (length k), value_sz = of_nat (length v), key = k, value = v\<rparr>"
  by (simp add: Put_def active_def Let_def update_conv' insert_entry_append)

lemma db_path_Put [simp]: "db_path (Put t k v s) = db_path s"
  by (simp add: Put_def Let_def)

lemma key_dir_Put: "key_dir (Put t k v s) = AList.update k \<lparr>file_id = db_path s, value_sz = of_nat (length v), value_pos = tellp s + 24 + length k, timestamp = t\<rparr> (key_dir s)"
  by (simp add: Put_def Let_def ValueOffset_def add.assoc)

lemma disk_Put: "map_of (disk (Put t k v s)) (db_path s) = Some (active (Put t k v s))"
  by (simp add: Put_def active_def Let_def update_conv')

lemma active_Put_bytes:
  "active (Put t k v s)
   = active s @ word_bytes t @ word_bytes (of_nat (length k)) @ word_bytes (of_nat (length v))
       @ k @ v"
  by (simp add: active_Put encode_eq)

lemma tellp_Put: "tellp (Put t k v s) = tellp s + 24 + length k + length v"
  by (simp add: tellp_def active_Put length_encode)


lemma Get_after_Put:
  assumes "length v < 2 ^ 64"
  shows "Get L k (Put time_us k v s) =
     (if stack_max L < length v then Inl StackOverflow
      else if string_max L < length v then Inl AllocationFailure
      else Inr v)"
proof -
  let ?e = "\<lparr>file_id = db_path s, value_sz = of_nat (length v) :: 64 word,
             value_pos = tellp s + 24 + length k, timestamp = time_us\<rparr>"
  have kd: "map_of (key_dir (Put time_us k v s)) k = Some ?e"
    by (simp add: key_dir_Put update_conv')
  have n: "unat (of_nat (length v) :: 64 word) = length v"
    using assms by (simp add: unat_of_nat)
  have "drop (tellp s + 24 + length k) (active (Put time_us k v s)) = v"
    by (simp add: active_Put encode_eq tellp_def)
  with kd n show ?thesis
    by (simp add: Get_def disk_Put Let_def)
qed

lemma Put_Get_value:
  assumes "length v < 2 ^ 64" "length v \<le> stack_max L" "length v \<le> string_max L"
  shows "Get L k (Put time_us k v s) = Inr v"
  using assms by (simp add: Get_after_Put)

text \<open>
  Claim C1. Right after \<open>Put k v\<close>, on any store and for any key (the empty key
  included, and whether or not the key was written before), \<open>Get k\<close> returns exactly
  \<open>v\<close> when \<open>v\<close> fits the stack array of \<open>Get\<close> and a string. For a value that the stack
  array cannot take, \<open>Get\<close> does not return the value that \<open>Put\<close> has stored: the
  program overflows its stack.
\<close>

theorem put_then_get:
  "(length v < 2 ^ 64 \<longrightarrow> length v \<le> stack_max L \<longrightarrow> length v \<le> string_max L \<longrightarrow>
      Get L k (Put time_us k v s) = Inr v)
   \<and> (length v < 2 ^ 64 \<longrightarrow> stack_max L < length v \<longrightarrow>
      Get L k (Put time_us k v s) = Inl StackOverflow)"
  by (simp add: Get_after_Put)

theorem put_then_get_witness:
  "Get example_limits ''k''
     (Put 9 ''k'' ''v'' \<lparr>db_path = ''7.cask'', key_dir = [], disk = [(''7.cask'', [])]\<rparr>)
     = Inr ''v''
   \<and> Get example_limits ''k''
     (Put 9 ''k'' (replicate 16777216 (CHR ''x''))
        \<lparr>db_path = ''7.cask'', key_dir = [], disk = [(''7.cask'', [])]\<rparr>)
     = Inl StackOverflow"
proof -
  let ?s = "\<lparr>db_path = ''7.cask'', key_dir = [], disk = [(''7.cask'', [])]\<rparr>"
  have a: "length ''v'' < (2::nat) ^ 64" "length ''v'' \<le> stack_max example_limits"
    "length ''v'' \<le> string_max example_limits"
    by (simp_all add: example_limits_def)
  have b: "length (replicate 16777216 (CHR ''x'')) < (2::nat) ^ 64"
    "stack_max example_limits < length (replicate 16777216 (CHR ''x''))"
    by (simp_all add: example_limits_def)
  from put_then_get [of "''v''" example_limits "''k''" 9 ?s] a
  have 1: "Get example_limits ''k'' (Put 9 ''k'' ''v'' ?s) = Inr ''v''"
    by blast
  from put_then_get [of "replicate 16777216 (CHR ''x'')" example_limits "''k''" 9 ?s] b
  have 2: "Get example_limits ''k'' (Put 9 ''k'' (replicate 16777216 (CHR ''x'')) ?s)
      = Inl StackOverflow"
    by blast
  from 1 2 show ?thesis by blast
qed

lemma Delete_present:
  assumes "map_of (key_dir s) k \<noteq> None"
  shows "Delete t k s = (Put t k kTombstoneValue s)
           \<lparr>key_dir := AList.delete k (key_dir (Put t k kTombstoneValue s))\<rparr>"
  unfolding Delete_def Let_def by (simp only: if_not_P [OF assms])

lemma key_dir_Delete: "key_dir (Delete t k s) = AList.delete k (key_dir s)"
proof (cases "map_of (key_dir s) k")
  case None
  then have "k \<notin> fst ` set (key_dir s)"
    by (simp add: map_of_eq_None_iff)
  then have "AList.delete k (key_dir s) = key_dir s"
    by (simp add: delete_id)
  with None show ?thesis by (simp add: Delete_def)
next
  case (Some e)
  then have "map_of (key_dir s) k \<noteq> None" by simp
  from Delete_present [OF this, of t] show ?thesis
    by (simp add: key_dir_Put delete_update_same)
qed

lemma Get_missing_iff: "Get L k s = Inl (MissingKeyException k') \<longleftrightarrow> map_of (key_dir s) k = None \<and> k' = k"
  by (auto simp: Get_def Let_def split: option.splits)

lemma absent_after_Delete: "map_of (key_dir (Delete t k s)) k = None"
  by (simp add: key_dir_Delete delete_conv')

lemma absent_preserved:
  assumes "map_of (key_dir s) k = None" "\<not> is_put_of k x"
  shows "map_of (key_dir (apply_op x s)) k = None"
proof (cases x)
  case (PutOp t k' v)
  with assms show ?thesis by (simp add: key_dir_Put update_conv')
next
  case (DeleteOp t k')
  with assms show ?thesis by (simp add: key_dir_Delete delete_conv')
qed

lemma absent_run:
  assumes "map_of (key_dir s) k = None" "\<forall>x \<in> set ops. \<not> is_put_of k x"
  shows "map_of (key_dir (run ops s)) k = None"
  using assms by (induction ops arbitrary: s) (simp_all add: absent_preserved)

text \<open>
  Claim C5. \<open>Delete k\<close> on a key without KeyDir entry changes nothing. On a key with
  an entry it is \<open>Put\<close> of the marker followed by the erasure of \<open>k\<close> from the KeyDir:
  the active segment grows by exactly one record, the 8 bytes of the timestamp, of
  the key size and of the size of the marker, then the key and the marker
  \<open>rdbc_tombstone\<close>. From then on \<open>Get k\<close> raises \<^verbatim>\<open>MissingKeyException\<close> after any
  further calls among which there is no \<open>Put\<close> of \<open>k\<close>.
\<close>

theorem delete_semantics:
  "(map_of (key_dir s) k = None \<longrightarrow> Delete time_us k s = s) \<and>
   (map_of (key_dir s) k \<noteq> None \<longrightarrow>
      Delete time_us k s
        = (Put time_us k kTombstoneValue s)
            \<lparr>key_dir := AList.delete k (key_dir (Put time_us k kTombstoneValue s))\<rparr>
      \<and> active (Delete time_us k s)
        = active s @ word_bytes time_us @ word_bytes (of_nat (length k)) @ word_bytes 14
            @ k @ ''rdbc_tombstone''
      \<and> map_of (disk (Delete time_us k s)) (db_path s) = Some (active (Delete time_us k s))
      \<and> db_path (Delete time_us k s) = db_path s
      \<and> map_of (key_dir (Delete time_us k s)) k = None) \<and>
   ((\<forall>x \<in> set ops. \<not> is_put_of k x) \<longrightarrow>
      Get L k (run ops (Delete time_us k s)) = Inl (MissingKeyException k))"
proof (intro conjI impI)
  assume "map_of (key_dir s) k = None"
  then show "Delete time_us k s = s" by (simp add: Delete_def)
next
  assume p: "map_of (key_dir s) k \<noteq> None"
  note d = Delete_present [OF p, of time_us]
  show "Delete time_us k s
        = (Put time_us k kTombstoneValue s)
            \<lparr>key_dir := AList.delete k (key_dir (Put time_us k kTombstoneValue s))\<rparr>"
    by (rule d)
  have a: "active (Delete time_us k s) = active (Put time_us k kTombstoneValue s)"
    by (simp add: d active_def)
  show "active (Delete time_us k s)
        = active s @ word_bytes time_us @ word_bytes (of_nat (length k)) @ word_bytes 14
            @ k @ ''rdbc_tombstone''"
    by (simp add: a active_Put_bytes kTombstoneValue_def)
  show "map_of (disk (Delete time_us k s)) (db_path s) = Some (active (Delete time_us k s))"
    by (simp only: a) (simp add: d disk_Put)
  show "db_path (Delete time_us k s) = db_path s"
    by (simp add: d)
  show "map_of (key_dir (Delete time_us k s)) k = None"
    by (rule absent_after_Delete)
next
  assume "\<forall>x \<in> set ops. \<not> is_put_of k x"
  from absent_run [OF absent_after_Delete this]
  show "Get L k (run ops (Delete time_us k s)) = Inl (MissingKeyException k)"
    by (simp add: Get_missing_iff)
qed

theorem delete_semantics_witness:
  "Delete 8 ''k'' \<lparr>db_path = ''7.cask'', key_dir = [], disk = [(''7.cask'', [])]\<rparr>
     = \<lparr>db_path = ''7.cask'', key_dir = [], disk = [(''7.cask'', [])]\<rparr>
   \<and> active (Delete 9 ''k''
        (Put 8 ''k'' ''v'' \<lparr>db_path = ''7.cask'', key_dir = [], disk = [(''7.cask'', [])]\<rparr>))
       = active (Put 8 ''k'' ''v'' \<lparr>db_path = ''7.cask'', key_dir = [], disk = [(''7.cask'', [])]\<rparr>)
         @ word_bytes 9 @ word_bytes (of_nat (length ''k'')) @ word_bytes 14
         @ ''k'' @ ''rdbc_tombstone''
   \<and> Get example_limits ''k'' (run [PutOp 10 ''j'' ''w'', DeleteOp 11 ''k'']
        (Delete 9 ''k''
          (Put 8 ''k'' ''v'' \<lparr>db_path = ''7.cask'', key_dir = [], disk = [(''7.cask'', [])]\<rparr>)))
       = Inl (MissingKeyException ''k'')"
proof -
  let ?s = "\<lparr>db_path = ''7.cask'', key_dir = [], disk = [(''7.cask'', [])]\<rparr>"
  have a: "map_of (key_dir ?s) ''k'' = None"
    by simp
  have p: "map_of (key_dir (Put 8 ''k'' ''v'' ?s)) ''k'' \<noteq> None"
    by (simp add: key_dir_Put)
  have q: "\<forall>x \<in> set [PutOp 10 ''j'' ''w'', DeleteOp 11 ''k'']. \<not> is_put_of ''k'' x"
    by simp
  from delete_semantics [of ?s "''k''" 8 "[]" example_limits] a
  have 1: "Delete 8 ''k'' ?s = ?s"
    by blast
  from delete_semantics [of "Put 8 ''k'' ''v'' ?s" "''k''" 9
      "[PutOp 10 ''j'' ''w'', DeleteOp 11 ''k'']" example_limits] p q
  have 2: "active (Delete 9 ''k'' (Put 8 ''k'' ''v'' ?s))
       = active (Put 8 ''k'' ''v'' ?s)
         @ word_bytes 9 @ word_bytes (of_nat (length ''k'')) @ word_bytes 14
         @ ''k'' @ ''rdbc_tombstone''"
    and 3: "Get example_limits ''k'' (run [PutOp 10 ''j'' ''w'', DeleteOp 11 ''k'']
        (Delete 9 ''k'' (Put 8 ''k'' ''v'' ?s))) = Inl (MissingKeyException ''k'')"
    by blast+
  from 1 2 3 show ?thesis by blast
qed

text \<open>
  Claim C4. \<open>Get k\<close> raises \<^verbatim>\<open>MissingKeyException\<close> exactly when \<open>k\<close> has no entry in
  the KeyDir. When there is an entry and its \<open>value_sz\<close> fits the stack array of \<open>Get\<close>
  and a string, \<open>Get\<close> reads the file the entry names from \<open>value_pos\<close> on and
  returns exactly \<open>value_sz\<close> bytes, whatever they are: nothing is compared with the
  key and nothing is validated. When \<open>value_sz\<close> is more than the stack array can
  take, \<open>Get\<close> returns nothing: the program overflows its stack.
\<close>

theorem get_semantics:
  "(Get L k s = Inl (MissingKeyException k) \<longleftrightarrow> map_of (key_dir s) k = None) \<and>
   (\<forall>e bytes. map_of (key_dir s) k = Some e \<longrightarrow> map_of (disk s) (file_id e) = Some bytes \<longrightarrow>
      value_pos e + unat (KeyDirEntry.value_sz e) \<le> length bytes \<longrightarrow>
      (unat (KeyDirEntry.value_sz e) \<le> stack_max L \<longrightarrow>
       unat (KeyDirEntry.value_sz e) \<le> string_max L \<longrightarrow>
         Get L k s = Inr (take (unat (KeyDirEntry.value_sz e)) (drop (value_pos e) bytes))
         \<and> length (take (unat (KeyDirEntry.value_sz e)) (drop (value_pos e) bytes))
             = unat (KeyDirEntry.value_sz e))
      \<and> (stack_max L < unat (KeyDirEntry.value_sz e) \<longrightarrow> Get L k s = Inl StackOverflow))"
  by (auto simp: Get_def Let_def split: option.splits)

theorem get_semantics_witness:
  "Get example_limits ''j''
     \<lparr>db_path = ''2.cask'',
      key_dir = [(''k'', \<lparr>file_id = ''1.cask'', value_sz = 2, value_pos = 1, timestamp = 0\<rparr>)],
      disk = [(''1.cask'', ''abcd'')]\<rparr> = Inl (MissingKeyException ''j'')
   \<and> Get example_limits ''k''
     \<lparr>db_path = ''2.cask'',
      key_dir = [(''k'', \<lparr>file_id = ''1.cask'', value_sz = 2, value_pos = 1, timestamp = 0\<rparr>)],
      disk = [(''1.cask'', ''abcd'')]\<rparr> = Inr ''bc''
   \<and> Get example_limits ''k''
     \<lparr>db_path = ''2.cask'',
      key_dir = [(''k'', \<lparr>file_id = ''1.cask'', value_sz = 16777216, value_pos = 25,
                          timestamp = 9\<rparr>)],
      disk = [(''1.cask'', encode \<lparr>CaskEntry.timestamp = 9, key_sz = 1, value_sz = 16777216,
                                    key = ''k'', value = replicate 16777216 (CHR ''x'')\<rparr>)]\<rparr>
     = Inl StackOverflow"
proof -
  let ?e = "\<lparr>file_id = ''1.cask'', value_sz = 2, value_pos = 1, timestamp = 0\<rparr>"
  let ?s = "\<lparr>db_path = ''2.cask'', key_dir = [(''k'', ?e)], disk = [(''1.cask'', ''abcd'')]\<rparr>"
  let ?big = "\<lparr>file_id = ''1.cask'', value_sz = 16777216, value_pos = 25, timestamp = 9\<rparr>"
  let ?bytes = "encode \<lparr>CaskEntry.timestamp = 9, key_sz = 1, value_sz = 16777216,
                        key = ''k'', value = replicate 16777216 (CHR ''x'')\<rparr>"
  let ?t = "\<lparr>db_path = ''2.cask'', key_dir = [(''k'', ?big)], disk = [(''1.cask'', ?bytes)]\<rparr>"
  have a: "map_of (key_dir ?s) ''j'' = None"
    by simp
  from get_semantics [of example_limits "''j''" ?s] a
  have 1: "Get example_limits ''j'' ?s = Inl (MissingKeyException ''j'')"
    by blast
  have h1: "map_of (key_dir ?s) ''k'' = Some ?e" by simp
  have h2: "map_of (disk ?s) (file_id ?e) = Some ''abcd''" by simp
  have h3: "value_pos ?e + unat (KeyDirEntry.value_sz ?e) \<le> length ''abcd''" by simp
  have h4: "unat (KeyDirEntry.value_sz ?e) \<le> stack_max example_limits"
    "unat (KeyDirEntry.value_sz ?e) \<le> string_max example_limits"
    by (simp_all add: example_limits_def)
  from get_semantics [of example_limits "''k''" ?s] h1 h2 h3 h4
  have "Get example_limits ''k'' ?s
      = Inr (take (unat (KeyDirEntry.value_sz ?e)) (drop (value_pos ?e) ''abcd''))"
    by blast
  then have 2: "Get example_limits ''k'' ?s = Inr ''bc''" by simp
  have g1: "map_of (key_dir ?t) ''k'' = Some ?big" by simp
  have g2: "map_of (disk ?t) (file_id ?big) = Some ?bytes" by simp
  have g3: "value_pos ?big + unat (KeyDirEntry.value_sz ?big) \<le> length ?bytes"
    by (simp add: length_encode)
  have g4: "stack_max example_limits < unat (KeyDirEntry.value_sz ?big)"
    by (simp add: example_limits_def)
  from get_semantics [of example_limits "''k''" ?t] g1 g2 g3 g4
  have 3: "Get example_limits ''k'' ?t = Inl StackOverflow"
    by blast
  from 1 2 3 show ?thesis by blast
qed

subsection \<open>Decoding and the end of a segment\<close>

lemma decode_complete:
  assumes "holdable L r"
  shows "decode L (encode r @ rest) = Inr (Some (r, length (encode r)))"
proof -
  let ?st = "open_stream (encode r @ rest)"
  have nf: "\<not> failed ?st" and d: "drop (gpos ?st) (content ?st) = encode r @ rest"
    by (simp_all add: open_stream_def)
  from extract_entry_holdable [OF nf assms d, of fresh_entry]
  show ?thesis
    by (simp add: decode_def open_stream_def)
qed

lemma decode_truncated:
  assumes "holdable L r" "n < length (encode r)"
  shows "decode L (take n (encode r)) = Inr None"
proof -
  let ?st = "open_stream (take n (encode r))"
  have nf: "\<not> failed ?st" and d: "drop (gpos ?st) (content ?st) = take n (encode r)"
    by (simp_all add: open_stream_def)
  have wf: "wf_entry r"
    using assms(1) by (simp add: holdable_def)
  note sz = holdable_sizes [OF assms(1)]
  have ks: "unat (bytes_word (take (min (n - 8) 8) (word_bytes (key_sz r))
               @ drop (min (n - 8) 8) (word_bytes (key_sz fresh_entry)))) \<le> string_max L"
    using overwritten_fresh [of "min (n - 8) 8" "key_sz r"] sz
    by (simp add: fresh_entry_def)
  have vs: "unat (bytes_word (take (min (n - 16) 8) (word_bytes (CaskEntry.value_sz r))
               @ drop (min (n - 16) 8) (word_bytes (CaskEntry.value_sz fresh_entry)))) \<le> string_max L"
    using overwritten_fresh [of "min (n - 16) 8" "CaskEntry.value_sz r"] sz
    by (simp add: fresh_entry_def)
  from extract_at_cut [OF nf wf assms(2) d ks vs]
  show ?thesis
    by (auto simp: decode_def)
qed

text \<open>
  Claim C7. The bytes of a record are the timestamp, the key size and the value size,
  8 bytes each, then the key and the value. For a record the process can hold (its
  size fields are the lengths of its key and value, and strings can take them),
  decoding these bytes, followed by anything, returns the record and consumes
  \<open>8 + 8 + 8 + key_sz + value_sz\<close> bytes; decoding any proper prefix of them raises
  nothing and ends with the stream failed, the short read.
\<close>

theorem codec_roundtrip:
  assumes "holdable L r"
  shows "encode r = word_bytes (CaskEntry.timestamp r) @ word_bytes (key_sz r)
                      @ word_bytes (CaskEntry.value_sz r) @ key r @ value r
       \<and> length (word_bytes (CaskEntry.timestamp r)) = 8
       \<and> length (word_bytes (key_sz r)) = 8
       \<and> length (word_bytes (CaskEntry.value_sz r)) = 8
       \<and> decode L (encode r @ rest)
           = Inr (Some (r, 8 + 8 + 8 + unat (key_sz r) + unat (CaskEntry.value_sz r)))
       \<and> (\<forall>n < length (encode r). decode L (take n (encode r)) = Inr None)"
proof -
  have "length (encode r) = 8 + 8 + 8 + unat (key_sz r) + unat (CaskEntry.value_sz r)"
    using assms by (simp add: length_encode wf_entry_def holdable_def)
  with decode_complete [OF assms, of rest] decode_truncated [OF assms]
  show ?thesis
    by (simp add: encode_eq)
qed

theorem codec_roundtrip_witness:
  "decode example_limits
      (encode \<lparr>CaskEntry.timestamp = 5, key_sz = 1, value_sz = 2, key = ''k'', value = ''ab''\<rparr>
         @ ''xyz'')
     = Inr (Some (\<lparr>CaskEntry.timestamp = 5, key_sz = 1, value_sz = 2, key = ''k'',
                   value = ''ab''\<rparr>, 27))
   \<and> decode example_limits
      (take 26 (encode \<lparr>CaskEntry.timestamp = 5, key_sz = 1, value_sz = 2, key = ''k'',
                         value = ''ab''\<rparr>))
     = Inr None"
proof -
  let ?r = "\<lparr>CaskEntry.timestamp = 5, key_sz = 1, value_sz = 2, key = ''k'', value = ''ab''\<rparr>"
  have h: "holdable example_limits ?r"
    by (simp add: holdable_def wf_entry_def example_limits_def)
  have l: "26 < length (encode ?r)"
    by (simp add: length_encode)
  have c: "8 + 8 + 8 + unat (key_sz ?r) + unat (CaskEntry.value_sz ?r) = 27"
    by simp
  note t = codec_roundtrip [OF h, of "''xyz''"]
  from t have "decode example_limits (encode ?r @ ''xyz'')
      = Inr (Some (?r, 8 + 8 + 8 + unat (key_sz ?r) + unat (CaskEntry.value_sz ?r)))"
    by blast
  then have 1: "decode example_limits (encode ?r @ ''xyz'') = Inr (Some (?r, 27))"
    by (simp only: c)
  from t l have 2: "decode example_limits (take 26 (encode ?r)) = Inr None"
    by blast
  from 1 2 show ?thesis
    by blast
qed

lemma to_string_0: "to_string 0 = ''0''"
  by code_simp

lemma to_string_1: "to_string 1 = ''1''"
  by code_simp

lemma to_string_2: "to_string 2 = ''2''"
  by code_simp

lemma to_string_3: "to_string 3 = ''3''"
  by code_simp

lemma to_string_4: "to_string 4 = ''4''"
  by code_simp








subsection \<open>ListKeys\<close>

lemma distinct_replay_entry:
  "distinct (map fst kd) \<Longrightarrow> distinct (map fst (replay_entry p st r kd))"
  by (simp add: replay_entry_def distinct_update distinct_delete split: option.splits)

lemma distinct_replay_file:
  "replay_file L p st e kd = Inr kd' \<Longrightarrow> distinct (map fst kd) \<Longrightarrow> distinct (map fst kd')"
proof (induction L p st e kd rule: replay_file.induct)
  case (1 L p st e kd)
  show ?case
  proof (cases "extract_entry L st e")
    case (Inl err)
    with "1.prems"(1) show ?thesis
      by (subst (asm) replay_file.simps) (simp add: Let_def)
  next
    case (Inr b)
    obtain st' e' where b: "b = (st', e')" by (cases b)
    show ?thesis
    proof (cases "failed st'")
      case True
      with "1.prems" Inr b show ?thesis
        by (subst (asm) replay_file.simps) (simp add: Let_def)
    next
      case False
      from "1.prems"(1) Inr b False
      have r: "replay_file L p st' e' (replay_entry p (gpos st) e' kd) = Inr kd'"
        by (subst (asm) replay_file.simps) (simp add: Let_def)
      from "1.IH" [OF refl Inr b [symmetric] False r distinct_replay_entry [OF "1.prems"(2)]]
      show ?thesis .
    qed
  qed
qed

lemma distinct_load_files:
  "load_files L dir kd = Inr kd' \<Longrightarrow> distinct (map fst kd) \<Longrightarrow> distinct (map fst kd')"
proof (induction L dir kd rule: load_files.induct)
  case (1 L kd)
  then show ?case by simp
next
  case (2 L name bytes rest kd)
  show ?case
  proof (cases "extension name \<noteq> kCaskSuffix")
    case True
    with "2.prems" "2.IH"(1) show ?thesis by simp
  next
    case False
    show ?thesis
    proof (cases "replay_file L name (open_stream bytes) fresh_entry kd")
      case (Inl err)
      with False "2.prems"(1) show ?thesis by simp
    next
      case (Inr b)
      with False "2.prems"(1) have l: "load_files L rest b = Inr kd'" by simp
      from "2.IH"(2) [OF False Inr l distinct_replay_file [OF Inr "2.prems"(2)]]
      show ?thesis .
    qed
  qed
qed

lemma distinct_Open:
  assumes "Open L dir now = Inr s"
  shows "distinct (map fst (key_dir s))"
proof -
  from Open_Inr [OF assms] have "load_files L dir [] = Inr (key_dir s)" by blast
  from distinct_load_files [OF this] show ?thesis by simp
qed

lemma ListKeys_Put: "set (ListKeys (Put t k v s)) = insert k (set (ListKeys s))"
  by (auto simp: ListKeys_def key_dir_Put update_keys)

lemma ListKeys_Delete: "set (ListKeys (Delete t k s)) = set (ListKeys s) - {k}"
  by (auto simp: ListKeys_def key_dir_Delete delete_keys)

lemma distinct_apply_op:
  "distinct (map fst (key_dir s)) \<Longrightarrow> distinct (map fst (key_dir (apply_op x s)))"
  by (cases x) (simp_all add: key_dir_Put key_dir_Delete distinct_update distinct_delete)

lemma distinct_run:
  "distinct (map fst (key_dir s)) \<Longrightarrow> distinct (map fst (key_dir (run ops s)))"
  by (induction ops arbitrary: s) (simp_all add: distinct_apply_op)

lemma live_keys_run: "set (ListKeys (run ops s)) = live_keys ops (set (ListKeys s))"
proof (induction ops arbitrary: s)
  case Nil
  show ?case by simp
next
  case (Cons x ops)
  then show ?case
    by (cases x) (simp_all add: ListKeys_Put ListKeys_Delete)
qed

text \<open>
  Claim C9. After any sequence of \<open>Put\<close> and \<open>Delete\<close> calls on an opened store,
  \<open>ListKeys\<close> lists every key of the KeyDir exactly once; these are the keys that
  are live after the calls (put and not deleted since) and no others. The order
  is the iteration order of the map. The example of the claim, on the store that
  \<open>Open\<close> returns for an empty directory, is the last conjunct.
\<close>

theorem list_keys_live:
  "(\<forall>s. Open L dir now = Inr s \<longrightarrow>
      distinct (ListKeys (run ops s))
      \<and> set (ListKeys (run ops s)) = live_keys ops (set (ListKeys s))
      \<and> set (ListKeys (run ops s)) = {k. map_of (key_dir (run ops s)) k \<noteq> None})
   \<and> Open L [] now = Inr \<lparr>db_path = to_string now @ kCaskSuffix, key_dir = [],
                           disk = [(to_string now @ kCaskSuffix, [])]\<rparr>
   \<and> set (ListKeys (run [PutOp t1 ''X'' ''1'', PutOp t2 ''Y'' ''2'', PutOp t3 ''X'' ''3'',
                           DeleteOp t4 ''Y'']
             \<lparr>db_path = to_string now @ kCaskSuffix, key_dir = [],
              disk = [(to_string now @ kCaskSuffix, [])]\<rparr>)) = {''X''}"
proof -
  let ?init = "\<lparr>db_path = to_string now @ kCaskSuffix, key_dir = [],
              disk = [(to_string now @ kCaskSuffix, [])]\<rparr>"
  have 1: "distinct (ListKeys (run ops s))" if "Open L dir now = Inr s" for s
    unfolding ListKeys_def by (rule distinct_run [OF distinct_Open [OF that]])
  have 3: "set (ListKeys (run ops s)) = {k. map_of (key_dir (run ops s)) k \<noteq> None}" for s
    by (auto simp: ListKeys_def map_of_eq_None_iff)
  have "ListKeys ?init = []"
    by (simp add: ListKeys_def)
  then have 4: "set (ListKeys (run [PutOp t1 ''X'' ''1'', PutOp t2 ''Y'' ''2'', PutOp t3 ''X'' ''3'',
                           DeleteOp t4 ''Y''] ?init)) = {''X''}"
    by (simp only: live_keys_run) auto
  from 1 3 4 live_keys_run [of ops] Open_empty [of L now] show ?thesis
    by blast
qed

theorem list_keys_live_witness:
  "Open example_limits [] 0 = Inr \<lparr>db_path = ''0.cask'', key_dir = [], disk = [(''0.cask'', [])]\<rparr>
   \<and> set (ListKeys (run [PutOp 1 ''a'' ''x'', DeleteOp 2 ''a'', PutOp 3 ''b'' ''y'']
        \<lparr>db_path = ''0.cask'', key_dir = [], disk = [(''0.cask'', [])]\<rparr>)) = {''b''}
   \<and> distinct (ListKeys (run [PutOp 1 ''a'' ''x'', DeleteOp 2 ''a'', PutOp 3 ''b'' ''y'']
        \<lparr>db_path = ''0.cask'', key_dir = [], disk = [(''0.cask'', [])]\<rparr>))"
proof -
  let ?s = "\<lparr>db_path = ''0.cask'', key_dir = [], disk = [(''0.cask'', [])]\<rparr>"
  let ?ops = "[PutOp 1 ''a'' ''x'', DeleteOp 2 ''a'', PutOp 3 ''b'' ''y'']"
  have o: "Open example_limits [] 0 = Inr ?s"
    by (simp add: Open_empty to_string_0 kCaskSuffix_def)
  have "ListKeys ?s = []"
    by (simp add: ListKeys_def)
  then have l: "live_keys ?ops (set (ListKeys ?s)) = {''b''}"
    by auto
  from list_keys_live [of example_limits "[]" 0 ?ops] o
  have "distinct (ListKeys (run ?ops ?s))
      \<and> set (ListKeys (run ?ops ?s)) = live_keys ?ops (set (ListKeys ?s))"
    by blast
  with o l show ?thesis
    by simp
qed


subsection \<open>Recovery and the recency rule\<close>

lemma extension_cask: "extension (to_string now @ kCaskSuffix) = kCaskSuffix"
proof -
  have "digits n \<noteq> []" for n
    by (subst digits.simps) simp
  then have "to_string now \<noteq> []"
    by (simp add: to_string_def)
  then have "CHR ''.'' \<in> set (tl (to_string now @ kCaskSuffix))"
    by (simp add: kCaskSuffix_def)
  moreover have "to_string now @ kCaskSuffix \<noteq> ''.''" "to_string now @ kCaskSuffix \<noteq> ''..''"
    by (auto simp: kCaskSuffix_def append_eq_Cons_conv)
  ultimately show ?thesis
    by (simp add: extension_def kCaskSuffix_def)
qed

text \<open>
  Claim C3 as stated does not hold: \<open>Put\<close> does not compare timestamps. On the store
  that \<open>Open\<close> returns for an empty directory, after \<open>Put ''k'' ''a''\<close> at clock value
  5 the entry of \<open>''k''\<close> has timestamp 5; a second \<open>Put ''k'' ''b''\<close> at the same clock
  value replaces the entry, and \<open>Get\<close> returns \<open>''b''\<close>.
\<close>

theorem put_recency_counterexample:
  "Open example_limits [] 1 = Inr \<lparr>db_path = ''1.cask'', key_dir = [], disk = [(''1.cask'', [])]\<rparr>
   \<and> map_option KeyDirEntry.timestamp
       (map_of (key_dir (Put 5 ''k'' ''a''
          \<lparr>db_path = ''1.cask'', key_dir = [], disk = [(''1.cask'', [])]\<rparr>)) ''k'') = Some 5
   \<and> map_of (key_dir (Put 5 ''k'' ''b'' (Put 5 ''k'' ''a''
          \<lparr>db_path = ''1.cask'', key_dir = [], disk = [(''1.cask'', [])]\<rparr>))) ''k''
       \<noteq> map_of (key_dir (Put 5 ''k'' ''a''
          \<lparr>db_path = ''1.cask'', key_dir = [], disk = [(''1.cask'', [])]\<rparr>)) ''k''
   \<and> Get example_limits ''k'' (Put 5 ''k'' ''b'' (Put 5 ''k'' ''a''
          \<lparr>db_path = ''1.cask'', key_dir = [], disk = [(''1.cask'', [])]\<rparr>)) = Inr ''b''"
proof -
  let ?init = "\<lparr>db_path = ''1.cask'', key_dir = [], disk = [(''1.cask'', [])]\<rparr>"
  let ?s = "Put 5 ''k'' ''a'' ?init"
  have 0: "Open example_limits [] 1 = Inr ?init"
    by (simp add: Open_empty to_string_1 kCaskSuffix_def)
  have 1: "map_option KeyDirEntry.timestamp (map_of (key_dir ?s) ''k'') = Some 5"
    by (simp add: key_dir_Put update_conv')
  have t0: "tellp ?init = 0"
    by (simp add: tellp_def active_def)
  have t1: "tellp ?s = 26"
    by (simp only: tellp_Put t0) simp
  have k1: "map_of (key_dir ?s) ''k''
      = Some \<lparr>file_id = ''1.cask'', value_sz = 1, value_pos = 25, timestamp = 5\<rparr>"
    by (simp only: key_dir_Put update_conv' t0) simp
  have k2: "map_of (key_dir (Put 5 ''k'' ''b'' ?s)) ''k''
      = Some \<lparr>file_id = ''1.cask'', value_sz = 1, value_pos = 51, timestamp = 5\<rparr>"
    by (simp only: key_dir_Put update_conv' t1 db_path_Put) simp
  have 2: "map_of (key_dir (Put 5 ''k'' ''b'' ?s)) ''k'' \<noteq> map_of (key_dir ?s) ''k''"
    unfolding k1 k2 by simp
  have "length ''b'' < (2::nat) ^ 64" "length ''b'' \<le> stack_max example_limits"
    "length ''b'' \<le> string_max example_limits"
    by (simp_all add: example_limits_def)
  then have 3: "Get example_limits ''k'' (Put 5 ''k'' ''b'' ?s) = Inr ''b''"
    by (rule Put_Get_value)
  from 0 1 2 3 show ?thesis by blast
qed

text \<open>
  Claim C3, amended. \<open>Put k v\<close> overwrites the KeyDir entry of \<open>k\<close> whatever
  timestamp an existing entry carries: afterwards the entry names the active segment,
  the size and offset of the new value and the new timestamp. The recency rule is the
  rule of the recovery fold only: replaying a record whose key has an entry with a
  timestamp greater than or equal to the record's leaves the KeyDir unchanged.
\<close>

theorem put_overwrites_unconditionally:
  "map_of (key_dir (Put time_us k v s)) k
     = Some \<lparr>file_id = db_path s, value_sz = of_nat (length v),
             value_pos = tellp s + 8 + 8 + 8 + length k, timestamp = time_us\<rparr>
   \<and> (\<forall>existing. map_of kd (key e) = Some existing \<longrightarrow>
        sint (CaskEntry.timestamp e) \<le> sint (KeyDirEntry.timestamp existing) \<longrightarrow>
        replay_entry path start e kd = kd)"
  by (simp add: key_dir_Put update_conv' replay_entry_def)

theorem put_overwrites_unconditionally_witness:
  "map_of [(''k'', \<lparr>file_id = ''1.cask'', value_sz = 1, value_pos = 25, timestamp = 5\<rparr>)] ''k''
     = Some \<lparr>file_id = ''1.cask'', value_sz = 1, value_pos = 25, timestamp = 5\<rparr>
   \<and> sint (5 :: 64 word) \<le> sint (5 :: 64 word)
   \<and> replay_entry ''2.cask'' 0
        \<lparr>CaskEntry.timestamp = 5, key_sz = 1, value_sz = 1, key = ''k'', value = ''b''\<rparr>
        [(''k'', \<lparr>file_id = ''1.cask'', value_sz = 1, value_pos = 25, timestamp = 5\<rparr>)]
      = [(''k'', \<lparr>file_id = ''1.cask'', value_sz = 1, value_pos = 25, timestamp = 5\<rparr>)]"
proof -
  let ?x = "\<lparr>file_id = ''1.cask'', value_sz = 1, value_pos = 25, timestamp = 5\<rparr>"
  let ?e = "\<lparr>CaskEntry.timestamp = 5, key_sz = 1, value_sz = 1, key = ''k'', value = ''b''\<rparr>"
  have a: "map_of [(''k'', ?x)] (key ?e) = Some ?x" by simp
  have b: "sint (CaskEntry.timestamp ?e) \<le> sint (KeyDirEntry.timestamp ?x)" by simp
  from put_overwrites_unconditionally [where kd = "[(''k'', ?x)]" and e = ?e
      and path = "''2.cask''" and start = 0 and time_us = 0 and k = "[]" and v = "[]"
      and s = "\<lparr>db_path = ''0.cask'', key_dir = [], disk = [(''0.cask'', [])]\<rparr>"] a b
  have "replay_entry ''2.cask'' 0 ?e [(''k'', ?x)] = [(''k'', ?x)]"
    by blast
  then show ?thesis by simp
qed

text \<open>
  Claim C2 fails on the code: the KeyDir that recovery builds depends on the order in
  which the segments are processed. Session 1 puts \<open>''k''\<close> (segment \<open>1.cask\<close>), session
  2 deletes it (the tombstone goes to \<open>2.cask\<close>). Processing \<open>1.cask\<close> before
  \<open>2.cask\<close> gives the empty KeyDir; processing \<open>2.cask\<close> first erases nothing, the
  timestamp of the tombstone is not kept, and the older record of \<open>1.cask\<close> brings
  the deleted key back, with its value.
\<close>

theorem recovery_depends_on_segment_order:
  "Open example_limits [] 1 = Inr \<lparr>db_path = ''1.cask'', key_dir = [], disk = [(''1.cask'', [])]\<rparr>
   \<and> Open example_limits
       (disk (Put 1 ''k'' ''v'' \<lparr>db_path = ''1.cask'', key_dir = [], disk = [(''1.cask'', [])]\<rparr>)) 2
     = Inr \<lparr>db_path = ''2.cask'',
            key_dir = [(''k'', \<lparr>file_id = ''1.cask'', value_sz = 1, value_pos = 25, timestamp = 1\<rparr>)],
            disk = [(''1.cask'', encode \<lparr>CaskEntry.timestamp = 1, key_sz = 1, value_sz = 1,
                                          key = ''k'', value = ''v''\<rparr>),
                    (''2.cask'', [])]\<rparr>
   \<and> disk (Delete 2 ''k''
        \<lparr>db_path = ''2.cask'',
         key_dir = [(''k'', \<lparr>file_id = ''1.cask'', value_sz = 1, value_pos = 25, timestamp = 1\<rparr>)],
         disk = [(''1.cask'', encode \<lparr>CaskEntry.timestamp = 1, key_sz = 1, value_sz = 1,
                                       key = ''k'', value = ''v''\<rparr>),
                 (''2.cask'', [])]\<rparr>)
     = [(''1.cask'', encode \<lparr>CaskEntry.timestamp = 1, key_sz = 1, value_sz = 1, key = ''k'', value = ''v''\<rparr>),
        (''2.cask'', encode \<lparr>CaskEntry.timestamp = 2, key_sz = 1, value_sz = 14, key = ''k'', value = kTombstoneValue\<rparr>)]
   \<and> Open example_limits
        [(''1.cask'', encode \<lparr>CaskEntry.timestamp = 1, key_sz = 1, value_sz = 1, key = ''k'', value = ''v''\<rparr>),
         (''2.cask'', encode \<lparr>CaskEntry.timestamp = 2, key_sz = 1, value_sz = 14, key = ''k'', value = kTombstoneValue\<rparr>)] 3
       = Inr \<lparr>db_path = ''3.cask'', key_dir = [],
              disk = [(''1.cask'', encode \<lparr>CaskEntry.timestamp = 1, key_sz = 1, value_sz = 1, key = ''k'', value = ''v''\<rparr>),
                      (''2.cask'', encode \<lparr>CaskEntry.timestamp = 2, key_sz = 1, value_sz = 14, key = ''k'', value = kTombstoneValue\<rparr>),
                      (''3.cask'', [])]\<rparr>
   \<and> Open example_limits
        [(''2.cask'', encode \<lparr>CaskEntry.timestamp = 2, key_sz = 1, value_sz = 14, key = ''k'', value = kTombstoneValue\<rparr>),
         (''1.cask'', encode \<lparr>CaskEntry.timestamp = 1, key_sz = 1, value_sz = 1, key = ''k'', value = ''v''\<rparr>)] 3
       = Inr \<lparr>db_path = ''3.cask'',
              key_dir = [(''k'', \<lparr>file_id = ''1.cask'', value_sz = 1, value_pos = 25, timestamp = 1\<rparr>)],
              disk = [(''2.cask'', encode \<lparr>CaskEntry.timestamp = 2, key_sz = 1, value_sz = 14, key = ''k'', value = kTombstoneValue\<rparr>),
                      (''1.cask'', encode \<lparr>CaskEntry.timestamp = 1, key_sz = 1, value_sz = 1, key = ''k'', value = ''v''\<rparr>),
                      (''3.cask'', [])]\<rparr>
   \<and> Get example_limits ''k''
        \<lparr>db_path = ''3.cask'',
         key_dir = [(''k'', \<lparr>file_id = ''1.cask'', value_sz = 1, value_pos = 25, timestamp = 1\<rparr>)],
         disk = [(''2.cask'', encode \<lparr>CaskEntry.timestamp = 2, key_sz = 1, value_sz = 14, key = ''k'', value = kTombstoneValue\<rparr>),
                 (''1.cask'', encode \<lparr>CaskEntry.timestamp = 1, key_sz = 1, value_sz = 1, key = ''k'', value = ''v''\<rparr>),
                 (''3.cask'', [])]\<rparr>
       = Inr ''v''"
proof -
  let ?L = example_limits
  let ?p = "\<lparr>CaskEntry.timestamp = 1, key_sz = 1, value_sz = 1, key = ''k'', value = ''v''\<rparr>"
  let ?d = "\<lparr>CaskEntry.timestamp = 2, key_sz = 1, value_sz = 14, key = ''k'', value = kTombstoneValue\<rparr>"
  let ?x = "\<lparr>file_id = ''1.cask'', value_sz = 1, value_pos = 25, timestamp = 1\<rparr>"
  let ?s1 = "\<lparr>db_path = ''1.cask'', key_dir = [], disk = [(''1.cask'', [])]\<rparr>"
  let ?s2 = "\<lparr>db_path = ''2.cask'', key_dir = [(''k'', ?x)],
             disk = [(''1.cask'', encode ?p), (''2.cask'', [])]\<rparr>"
  have hp: "holdable ?L ?p" and hd: "holdable ?L ?d"
    by (simp_all add: holdable_def wf_entry_def kTombstoneValue_def example_limits_def)
  have e1: "extension ''1.cask'' = kCaskSuffix" and e2: "extension ''2.cask'' = kCaskSuffix"
    by (simp_all add: extension_def kCaskSuffix_def)
  have rp: "replay_entry ''1.cask'' 0 ?p [] = [(''k'', ?x)]"
    by (simp add: replay_entry_def kTombstoneValue_def ValueOffset_def)
  have rd: "replay_entry ''2.cask'' 0 ?d [(''k'', ?x)] = []"
    by (simp add: replay_entry_def)
  have rd0: "replay_entry ''2.cask'' 0 ?d [] = []"
    by (simp add: replay_entry_def)
  have o1: "Open ?L [] 1 = Inr ?s1"
    by (simp add: Open_empty to_string_1 kCaskSuffix_def)
  have s1: "Put 1 ''k'' ''v'' ?s1
      = \<lparr>db_path = ''1.cask'', key_dir = [(''k'', ?x)], disk = [(''1.cask'', encode ?p)]\<rparr>"
    by (simp add: Put_def Let_def active_def tellp_def insert_entry_append ValueOffset_def)
  have a1: "\<forall>(name, rs) \<in> set [(''1.cask'', [?p])].
      extension name = kCaskSuffix \<and> list_all (holdable ?L) rs"
    using e1 hp by simp
  have a12: "\<forall>(name, rs) \<in> set [(''1.cask'', [?p]), (''2.cask'', [?d])].
      extension name = kCaskSuffix \<and> list_all (holdable ?L) rs"
    using e1 e2 hp hd by simp
  have a21: "\<forall>(name, rs) \<in> set [(''2.cask'', [?d]), (''1.cask'', [?p])].
      extension name = kCaskSuffix \<and> list_all (holdable ?L) rs"
    using e1 e2 hp hd by simp
  have o2: "Open ?L (disk (Put 1 ''k'' ''v'' ?s1)) 2 = Inr ?s2"
    unfolding s1 using Open_dir [OF a1, of 2]
    by (simp add: dir_of_def segment_def rp to_string_2 kCaskSuffix_def)
  have 3: "disk (Delete 2 ''k'' ?s2) = [(''1.cask'', encode ?p), (''2.cask'', encode ?d)]"
    by (simp add: Delete_def Put_def Let_def active_def insert_entry_append kTombstoneValue_def)
  have 4: "Open ?L [(''1.cask'', encode ?p), (''2.cask'', encode ?d)] 3
      = Inr \<lparr>db_path = ''3.cask'', key_dir = [],
             disk = [(''1.cask'', encode ?p), (''2.cask'', encode ?d), (''3.cask'', [])]\<rparr>"
    using Open_dir [OF a12, of 3]
    by (simp add: dir_of_def segment_def rp rd to_string_3 kCaskSuffix_def)
  have 5: "Open ?L [(''2.cask'', encode ?d), (''1.cask'', encode ?p)] 3
      = Inr \<lparr>db_path = ''3.cask'', key_dir = [(''k'', ?x)],
             disk = [(''2.cask'', encode ?d), (''1.cask'', encode ?p), (''3.cask'', [])]\<rparr>"
    using Open_dir [OF a21, of 3]
    by (simp add: dir_of_def segment_def rp rd0 to_string_3 kCaskSuffix_def)
  have 6: "Get ?L ''k'' \<lparr>db_path = ''3.cask'', key_dir = [(''k'', ?x)],
             disk = [(''2.cask'', encode ?d), (''1.cask'', encode ?p), (''3.cask'', [])]\<rparr>
      = Inr ''v''"
    by (simp add: Get_def Let_def encode_eq example_limits_def)
  from o1 o2 3 4 5 6 show ?thesis by blast
qed

subsection \<open>The KeyDir invariant\<close>







































lemma tellp_fresh: "tellp \<lparr>db_path = p, key_dir = kd, disk = AList.update p [] d\<rparr> = 0"
  by (simp add: tellp_def active_def update_conv')




subsection \<open>The tombstone marker as a value\<close>


















end
